theory Spec2Isabelle
  imports Main "HOL-Library.Word"
begin

unbundle bit_operations_syntax

section \<open>Constants and memory map of main.c\<close>

text \<open>
  The ARM core is a 32-bit machine: \<^verbatim>\<open>unsigned int\<close>, \<^verbatim>\<open>unsigned long\<close> and pointers
  are all 32 bits wide.  A pointer of type \<^verbatim>\<open>lPTR\<close> is modelled by its byte address;
  advancing it by \<open>k\<close> words adds \<open>4 * k\<close> to the address, wrapping modulo \<open>2 ^ 32\<close>.
\<close>

type_synonym u32 = "32 word"

definition NDPWORDS :: u32 where
  "NDPWORDS = 0x8000"

definition NBANKS :: nat where
  "NBANKS = 16"

definition NWORDSPERBANK :: u32 where
  "NWORDSPERBANK = 0x400"

definition NWORDSMASK :: u32 where
  "NWORDSMASK = 0x7ff00000"

definition BANKIDMASK :: u32 where
  "BANKIDMASK = 0x0000000f"

definition BOS :: u32 where
  "BOS = 0x0"

definition EOS :: u32 where
  "EOS = 0x1"

definition READY :: u32 where
  "READY = 0x2"

definition dpStartAddr :: u32 where
  "dpStartAddr = 0x50000000"

definition dpEndAddr :: u32 where
  "dpEndAddr = 0x50010000"

definition dpIntAddr :: u32 where
  "dpIntAddr = 0x5001fff8"

definition sdStartAddr :: u32 where
  "sdStartAddr = 0x20008000"

definition sdEndAddr :: u32 where
  "sdEndAddr = 0x23f00000"

text \<open>Pointer arithmetic on \<^verbatim>\<open>lPTR\<close>: \<^verbatim>\<open>p + k\<close> and \<^verbatim>\<open>p - q\<close> (a signed word count).\<close>

definition ptr_add :: "u32 \<Rightarrow> u32 \<Rightarrow> u32" where
  "ptr_add p k = p + 4 * k"

definition ptr_diff :: "u32 \<Rightarrow> u32 \<Rightarrow> u32" where
  "ptr_diff p q = signed_drop_bit 2 (p - q)"

section \<open>Program state\<close>

text \<open>
  Program points of the polling context (\<^verbatim>\<open>main\<close>, \<^verbatim>\<open>init\<close> and \<^verbatim>\<open>beamOnTransfer\<close>),
  one per statement or loop test, named after what the statement does.
\<close>

datatype pc =
    Poll          \<comment> \<open>line 320: \<^verbatim>\<open>if(state == READY) beamOnTransfer();\<close>\<close>
  | InitBanks     \<comment> \<open>lines 79-88: bank address tables, headers cleared\<close>
  | InitState     \<comment> \<open>line 94: \<^verbatim>\<open>state = BOS;\<close>\<close>
  | InitTotal     \<comment> \<open>line 99: \<^verbatim>\<open>nWordsTotal = 0;\<close>\<close>
  | Cursors       \<comment> \<open>lines 113-114\<close>
  | OuterTest     \<comment> \<open>line 115: \<^verbatim>\<open>while(state == BOS)\<close>\<close>
  | ReadHeader    \<comment> \<open>line 118\<close>
  | ScanTest      \<comment> \<open>line 119: \<^verbatim>\<open>while(header == 0)\<close>\<close>
  | ScanAdvance   \<comment> \<open>lines 121-122\<close>
  | ScanCheck     \<comment> \<open>line 124: \<^verbatim>\<open>if(state != BOS) break;\<close>\<close>
  | Extract       \<comment> \<open>lines 128-135\<close>
  | PushHeader    \<comment> \<open>lines 141-142\<close>
  | CopyInit      \<comment> \<open>line 145\<close>
  | CopyTest      \<comment> \<open>line 146: \<^verbatim>\<open>i != 0\<close>\<close>
  | CopyWord      \<comment> \<open>lines 148-149 and the \<^verbatim>\<open>--i\<close> of line 146\<close>
  | PushFooter    \<comment> \<open>lines 156-157\<close>
  | ClearHeader   \<comment> \<open>line 160\<close>
  | AdvanceBank   \<comment> \<open>line 161\<close>
  | UpdateTotal   \<comment> \<open>line 164\<close>
  | ExitUpdate    \<comment> \<open>line 173\<close>

text \<open>
  The globals of main.c, the memory, and the locals of \<^verbatim>\<open>beamOnTransfer\<close>.
  \<open>mem\<close> maps a byte address to the 32-bit word stored there; the dual-port RAM, the
  SDRAM and everything else on the bus live in this one store, so that a cursor running
  out of its region lands on whatever is mapped next to it.
  \<open>hbusy\<close> is set while \<^verbatim>\<open>beamOffTransfer\<close> has passed its level check and not yet
  returned.
\<close>

record machine =
  state :: u32
  nWordsTotal :: u32
  dpBankStartAddr :: "nat \<Rightarrow> u32"
  dpBankLastAddr :: "nat \<Rightarrow> u32"
  currentSDAddr :: u32
  mem :: "u32 \<Rightarrow> u32"
  sdAddr :: u32
  currentDPBank :: u32
  header :: u32
  dpAddr :: u32
  nWords :: u32
  eventID :: u32
  loop_i :: u32
  pc :: pc
  hbusy :: bool

section \<open>beamOffTransfer: the drain handler\<close>

text \<open>The copy loop of lines 214-223: \<open>i\<close> words from \<open>sd\<close> to \<open>dp\<close>, one at a time.\<close>

function sd_to_dp :: "u32 \<Rightarrow> u32 \<Rightarrow> u32 \<Rightarrow> (u32 \<Rightarrow> u32) \<Rightarrow> u32 \<times> u32 \<times> (u32 \<Rightarrow> u32)" where
  "sd_to_dp i dp sd m =
     (if i = 0 then (dp, sd, m)
      else sd_to_dp (i - 1) (ptr_add dp 1) (ptr_add sd 1) (m(dp := m sd)))"
  by pat_completeness auto
termination
  by (relation "measure (\<lambda>(i, dp, sd, m). unat i)") (auto simp: measure_unat)

text \<open>Lines 192-201: the first entry of a spill.\<close>

definition enterEOS :: "machine \<Rightarrow> machine" where
  "enterEOS s =
     (if state s = BOS then s\<lparr>state := EOS, currentSDAddr := sdStartAddr\<rparr> else s)"

text \<open>Lines 204-232: one mailbox batch.\<close>

definition drainBatch :: "machine \<Rightarrow> machine" where
  "drainBatch s =
     (let n0 = NDPWORDS - 1;
          n = (if n0 > nWordsTotal s then nWordsTotal s else n0);
          m1 = (mem s)(dpStartAddr := n);
          (dp, sd, m2) = sd_to_dp n (ptr_add dpStartAddr 1) (currentSDAddr s) m1;
          total = nWordsTotal s - n
      in s\<lparr>mem := m2, currentSDAddr := sd, nWordsTotal := total,
            state := (if total = 0 then READY else state s)\<rparr>)"

text \<open>
  The handler.  \<open>dp_lev\<close> is what \<^verbatim>\<open>PIO_Get(&pinPC11)\<close> returned: 1 when the pin reads
  high, 0 when it reads low.
\<close>

definition beamOffTransfer :: "u32 \<Rightarrow> machine \<Rightarrow> machine" where
  "beamOffTransfer dp_lev s = (if dp_lev = 1 then s else drainBatch (enterEOS s))"

section \<open>init and beamOnTransfer: the ingest loop\<close>

definition ptr_sub :: "u32 \<Rightarrow> u32 \<Rightarrow> u32" where
  "ptr_sub p k = p - 4 * k"

text \<open>One pass of the \<^verbatim>\<open>for\<close> loop of \<^verbatim>\<open>init\<close>, lines 83-87, for bank \<open>b\<close>.\<close>

definition initBank :: "nat \<Rightarrow> machine \<Rightarrow> machine" where
  "initBank b s =
     (let start = ptr_add (dpBankStartAddr s (b - 1)) NWORDSPERBANK;
          last = ptr_sub (ptr_add start NWORDSPERBANK) 3
      in s\<lparr>dpBankStartAddr := (dpBankStartAddr s)(b := start),
            dpBankLastAddr := (dpBankLastAddr s)(b := last),
            mem := (mem s)(start := 0)\<rparr>)"

function initLoop :: "nat \<Rightarrow> machine \<Rightarrow> machine" where
  "initLoop b s = (if b < NBANKS then initLoop (b + 1) (initBank b s) else s)"
  by pat_completeness auto
termination
  by (relation "measure (\<lambda>(b, s). NBANKS - b)") auto

text \<open>Lines 79-88: bank 0 is set up before the loop, which starts at bank 1.\<close>

definition initBanks :: "machine \<Rightarrow> machine" where
  "initBanks s =
     initLoop 1 (s\<lparr>dpBankStartAddr := (dpBankStartAddr s)(0 := dpStartAddr),
                    mem := (mem s)(dpStartAddr := 0)\<rparr>)"

definition initState :: "machine \<Rightarrow> machine" where
  "initState s = s\<lparr>state := BOS\<rparr>"

definition initTotal :: "machine \<Rightarrow> machine" where
  "initTotal s = s\<lparr>nWordsTotal := 0\<rparr>"

definition init :: "machine \<Rightarrow> machine" where
  "init s = initTotal (initState (initBanks s))"

text \<open>Lines 113-114.\<close>

definition resetCursors :: "machine \<Rightarrow> machine" where
  "resetCursors s = s\<lparr>sdAddr := sdStartAddr, currentDPBank := 0\<rparr>"

text \<open>The address tables are indexed by \<open>currentDPBank\<close>, which stays below 16.\<close>

definition bankStart :: "machine \<Rightarrow> u32" where
  "bankStart s = dpBankStartAddr s (unat (currentDPBank s))"

definition bankLast :: "machine \<Rightarrow> u32" where
  "bankLast s = dpBankLastAddr s (unat (currentDPBank s))"

text \<open>Line 118.\<close>

definition readHeader :: "machine \<Rightarrow> machine" where
  "readHeader s = s\<lparr>header := mem s (bankStart s)\<rparr>"

text \<open>Lines 121-122.\<close>

definition nextBank :: "u32 \<Rightarrow> u32" where
  "nextBank b = (b + 1) AND BANKIDMASK"

definition scanAdvance :: "machine \<Rightarrow> machine" where
  "scanAdvance s = readHeader (s\<lparr>currentDPBank := nextBank (currentDPBank s)\<rparr>)"

text \<open>Line 129: the word count field of a header.\<close>

definition word_count :: "u32 \<Rightarrow> u32" where
  "word_count h = drop_bit 20 (h AND NWORDSMASK)"

text \<open>Lines 128-135.\<close>

definition extractFields :: "machine \<Rightarrow> machine" where
  "extractFields s =
     s\<lparr>dpAddr := ptr_add (bankStart s) 1,
       nWords := word_count (header s),
       eventID := mem s (bankLast s)\<rparr>"

text \<open>Lines 141-142.\<close>

definition pushHeader :: "machine \<Rightarrow> machine" where
  "pushHeader s =
     s\<lparr>mem := (mem s)(sdAddr s := header s), sdAddr := ptr_add (sdAddr s) 1\<rparr>"

text \<open>Line 145.\<close>

definition copyInit :: "machine \<Rightarrow> machine" where
  "copyInit s = s\<lparr>loop_i := nWords s - 1\<rparr>"

text \<open>Lines 148-149, followed by the \<^verbatim>\<open>--i\<close> of the loop head.\<close>

definition copyWord :: "machine \<Rightarrow> machine" where
  "copyWord s =
     s\<lparr>mem := (mem s)(sdAddr s := mem s (dpAddr s) + 1),
       sdAddr := ptr_add (sdAddr s) 1,
       dpAddr := ptr_add (dpAddr s) 1,
       loop_i := loop_i s - 1\<rparr>"

text \<open>Lines 146-153: the whole \<^verbatim>\<open>for\<close> loop.\<close>

function copyWords :: "machine \<Rightarrow> machine" where
  "copyWords s = (if loop_i s = 0 then s else copyWords (copyWord s))"
  by pat_completeness auto
termination
  by (relation "measure (\<lambda>s. unat (loop_i s))") (auto simp: copyWord_def measure_unat)

text \<open>Lines 156-157.\<close>

definition pushFooter :: "machine \<Rightarrow> machine" where
  "pushFooter s =
     s\<lparr>mem := (mem s)(sdAddr s := eventID s), sdAddr := ptr_add (sdAddr s) 1\<rparr>"

text \<open>Line 160.\<close>

definition clearHeader :: "machine \<Rightarrow> machine" where
  "clearHeader s = s\<lparr>mem := (mem s)(bankStart s := 0)\<rparr>"

text \<open>Line 161.\<close>

definition advanceBank :: "machine \<Rightarrow> machine" where
  "advanceBank s = s\<lparr>currentDPBank := nextBank (currentDPBank s)\<rparr>"

text \<open>Lines 164 and 173.\<close>

definition updateTotal :: "machine \<Rightarrow> machine" where
  "updateTotal s = s\<lparr>nWordsTotal := ptr_diff (sdAddr s) sdStartAddr\<rparr>"

text \<open>
  Lines 127-161: what the loop body does to the bank at \<open>currentDPBank\<close> with the header
  it has read, up to the point just before the occupied count is written.
\<close>

definition copyBank :: "machine \<Rightarrow> machine" where
  "copyBank s =
     advanceBank (clearHeader (pushFooter (copyWords (copyInit (pushHeader (extractFields s))))))"

text \<open>Lines 127-164.\<close>

definition consumeBank :: "machine \<Rightarrow> machine" where
  "consumeBank s = updateTotal (copyBank s)"

section \<open>The two execution contexts\<close>

text \<open>
  One statement of the polling context: \<^verbatim>\<open>main\<close>'s loop, \<^verbatim>\<open>init\<close> and
  \<^verbatim>\<open>beamOnTransfer\<close>, following the program points of \<open>pc\<close>.
\<close>

definition main_step :: "machine \<Rightarrow> machine" where
  "main_step s =
     (case pc s of
        Poll \<Rightarrow> if state s = READY then s\<lparr>pc := InitBanks\<rparr> else s
      | InitBanks \<Rightarrow> (initBanks s)\<lparr>pc := InitState\<rparr>
      | InitState \<Rightarrow> (initState s)\<lparr>pc := InitTotal\<rparr>
      | InitTotal \<Rightarrow> (initTotal s)\<lparr>pc := Cursors\<rparr>
      | Cursors \<Rightarrow> (resetCursors s)\<lparr>pc := OuterTest\<rparr>
      | OuterTest \<Rightarrow> if state s = BOS then s\<lparr>pc := ReadHeader\<rparr> else s\<lparr>pc := ExitUpdate\<rparr>
      | ReadHeader \<Rightarrow> (readHeader s)\<lparr>pc := ScanTest\<rparr>
      | ScanTest \<Rightarrow> if header s = 0 then s\<lparr>pc := ScanAdvance\<rparr> else s\<lparr>pc := Extract\<rparr>
      | ScanAdvance \<Rightarrow> (scanAdvance s)\<lparr>pc := ScanCheck\<rparr>
      | ScanCheck \<Rightarrow> if state s \<noteq> BOS then s\<lparr>pc := Extract\<rparr> else s\<lparr>pc := ScanTest\<rparr>
      | Extract \<Rightarrow> (extractFields s)\<lparr>pc := PushHeader\<rparr>
      | PushHeader \<Rightarrow> (pushHeader s)\<lparr>pc := CopyInit\<rparr>
      | CopyInit \<Rightarrow> (copyInit s)\<lparr>pc := CopyTest\<rparr>
      | CopyTest \<Rightarrow> if loop_i s \<noteq> 0 then s\<lparr>pc := CopyWord\<rparr> else s\<lparr>pc := PushFooter\<rparr>
      | CopyWord \<Rightarrow> (copyWord s)\<lparr>pc := CopyTest\<rparr>
      | PushFooter \<Rightarrow> (pushFooter s)\<lparr>pc := ClearHeader\<rparr>
      | ClearHeader \<Rightarrow> (clearHeader s)\<lparr>pc := AdvanceBank\<rparr>
      | AdvanceBank \<Rightarrow> (advanceBank s)\<lparr>pc := UpdateTotal\<rparr>
      | UpdateTotal \<Rightarrow> (updateTotal s)\<lparr>pc := OuterTest\<rparr>
      | ExitUpdate \<Rightarrow> (updateTotal s)\<lparr>pc := Poll\<rparr>)"

text \<open>\<open>k\<close> statements of the polling context in a row, nothing else running.\<close>

fun main_run :: "nat \<Rightarrow> machine \<Rightarrow> machine" where
  "main_run 0 s = s"
| "main_run (Suc k) s = main_run k (main_step s)"

text \<open>The dual-port RAM occupies 32K words from \<open>dpStartAddr\<close>.\<close>

definition in_dp :: "u32 \<Rightarrow> bool" where
  "in_dp a \<longleftrightarrow> dpStartAddr \<le> a \<and> a < dpStartAddr + 4 * NDPWORDS"

text \<open>
  One step of the whole system.  The handler preempts the polling context between any
  two statements and runs to its end before the polling context goes on; it is taken in
  two steps, lines 186-201 and lines 204-239, so that each step writes \<open>state\<close> at most
  once.  The hardware on the other port of the dual-port RAM may write a word there at
  any moment.
\<close>

inductive step :: "machine \<Rightarrow> machine \<Rightarrow> bool" where
  polling: "\<not> hbusy s \<Longrightarrow> step s (main_step s)"
| irq_return: "\<not> hbusy s \<Longrightarrow> dp_lev = (1::u32) \<Longrightarrow> step s s"
| irq_enter: "\<not> hbusy s \<Longrightarrow> dp_lev \<noteq> (1::u32) \<Longrightarrow> step s ((enterEOS s)\<lparr>hbusy := True\<rparr>)"
| irq_drain: "hbusy s \<Longrightarrow> step s ((drainBatch s)\<lparr>hbusy := False\<rparr>)"
| hardware: "in_dp a \<Longrightarrow> step s (s\<lparr>mem := (mem s)(a := v)\<rparr>)"

text \<open>
  The configurations the system can be in, from the moment \<^verbatim>\<open>main\<close> has set
  \<^verbatim>\<open>state = READY\<close> (line 312) and enters its loop.
\<close>

inductive reachable :: "machine \<Rightarrow> bool" where
  start: "state s = READY \<Longrightarrow> pc s = Poll \<Longrightarrow> \<not> hbusy s \<Longrightarrow> reachable s"
| later: "reachable s \<Longrightarrow> step s s' \<Longrightarrow> reachable s'"

text \<open>The transitions of the spill cycle, and staying put.\<close>

definition cycle_ok :: "u32 \<Rightarrow> u32 \<Rightarrow> bool" where
  "cycle_ok a b \<longleftrightarrow>
     a = b \<or> (a = READY \<and> b = BOS) \<or> (a = BOS \<and> b = EOS) \<or> (a = EOS \<and> b = READY)"

section \<open>Reading the memory\<close>

text \<open>The \<open>k\<close> words stored from address \<open>a\<close> on.\<close>

definition words_at :: "(u32 \<Rightarrow> u32) \<Rightarrow> u32 \<Rightarrow> nat \<Rightarrow> u32 list" where
  "words_at m a k = map (\<lambda>j. m (ptr_add a (of_nat j))) [0..<k]"

section \<open>Example configurations\<close>

text \<open>
  The machine as \<^verbatim>\<open>main\<close> enters its loop: the static arrays and \<open>currentSDAddr\<close> are zero,
  as C initialises them, the memory holds zeros.
\<close>

definition boot :: machine where
  "boot = \<lparr>state = READY, nWordsTotal = 0, dpBankStartAddr = (\<lambda>_. 0),
           dpBankLastAddr = (\<lambda>_. 0), currentSDAddr = 0, mem = (\<lambda>_. 0),
           sdAddr = 0, currentDPBank = 0, header = 0, dpAddr = 0, nWords = 0,
           eventID = 0, loop_i = 0, pc = Poll, hbusy = False\<rparr>"

text \<open>A second configuration: beam on, one record of four words staged.\<close>

definition staged :: machine where
  "staged = boot\<lparr>state := BOS, nWordsTotal := 4, sdAddr := 0x20008010,
      mem := (\<lambda>_. 0)(0x20008000 := 0x00300000, 0x20008004 := 11, 0x20008008 := 21,
                        0x2000800c := 0xF),
      pc := OuterTest\<rparr>"

text \<open>
  Configurations reached from \<open>boot\<close>.  \<open>beam_on\<close>: the polling context has run
  \<^verbatim>\<open>init\<close> and stands at the head of the ingest loop.  \<open>bank1_written\<close>: the hardware has
  then filled bank 1 with a record of word count 3, payload 10 and 20, event tag
  \<open>0xF\<close>.  \<open>bank1_found\<close>: the header scan has found it.
\<close>

definition beam_on :: machine where
  "beam_on = main_run 5 boot"

definition bank1_written :: machine where
  "bank1_written = beam_on\<lparr>mem := (mem beam_on)(0x50001000 := 0x00300000, 0x50001004 := 10,
      0x50001008 := 20, 0x50001ff4 := 0xF)\<rparr>"

definition bank1_found :: machine where
  "bank1_found = main_run 6 bank1_written"

text \<open>
  \<open>bank0_found\<close>: the same for a record of word count 2 in bank 0, whose last word but two
  holds the event tag \<open>0xF0\<close>.
\<close>

definition bank0_found :: machine where
  "bank0_found = main_run 3 (beam_on\<lparr>mem := (mem beam_on)(0x50000000 := 0x00200000,
      0x50000004 := 10, 0x50000ff4 := 0xF0)\<rparr>)"

text \<open>
  An empty spill.  \<open>interrupted\<close>: with every header zero the polling context is inside
  the header scan when the handler runs with the pin low; nothing is staged, so the state
  goes to \<open>READY\<close>.
\<close>


definition interrupted :: machine where
  "interrupted = beamOffTransfer 0 (main_run 3 beam_on)"

text \<open>
  \<open>zero_count_found\<close>: beam on, the hardware has written into bank 1 a header that is not
  zero but whose count field is, and the header scan has found it.
\<close>

definition zero_count_found :: machine where
  "zero_count_found = main_run 6 (beam_on\<lparr>mem := (mem beam_on)(0x50001000 := 0x80000001)\<rparr>)"

text \<open>
  \<open>buffer_full\<close>: as \<open>bank1_found\<close>, with the staging cursor at the end of the SDRAM.
  \<open>oversized\<close>: as \<open>bank1_found\<close>, with a header whose count field is 2047.
\<close>

definition buffer_full :: machine where
  "buffer_full = bank1_found\<lparr>sdAddr := sdEndAddr\<rparr>"

definition oversized :: machine where
  "oversized = bank1_found\<lparr>header := 0x7ff00000\<rparr>"

section \<open>Notions used in the statements\<close>

text \<open>
  The \<open>k\<close> words from \<open>a\<close> and the \<open>l\<close> words from \<open>b\<close> are two blocks of the address
  space that do not wrap around and do not overlap.
\<close>

definition apart :: "u32 \<Rightarrow> nat \<Rightarrow> u32 \<Rightarrow> nat \<Rightarrow> bool" where
  "apart a k b l \<longleftrightarrow>
     unat a + 4 * k \<le> 2 ^ 32 \<and> unat b + 4 * l \<le> 2 ^ 32 \<and>
     (unat a + 4 * k \<le> unat b \<or> unat b + 4 * l \<le> unat a)"

text \<open>The size of the batch one drain call moves, lines 205-206.\<close>

definition batch :: "machine \<Rightarrow> u32" where
  "batch s = min (NDPWORDS - 1) (nWordsTotal s)"

text \<open>
  A run of the ingest loop, seen at the moments it starts on a bank: \<open>ts\<close> lists the
  machine at each of these moments, the header it has found in \<open>header\<close>.  Between two
  of them the polling context only scans headers and the hardware only writes the
  dual-port RAM, so each finds the staging cursor where the copy before left it.
\<close>

fun record_starts :: "machine \<Rightarrow> machine list \<Rightarrow> bool" where
  "record_starts s [] = True"
| "record_starts s (t # ts) = (sdAddr t = sdAddr s \<and> record_starts (consumeBank t) ts)"

text \<open>The machine after the last of these banks has been consumed.\<close>

fun ingest_end :: "machine \<Rightarrow> machine list \<Rightarrow> machine" where
  "ingest_end s [] = s"
| "ingest_end s (t # ts) = ingest_end (consumeBank t) ts"

text \<open>The sum over the consumed banks of the header's word count plus one.\<close>

definition staged_count :: "machine list \<Rightarrow> nat" where
  "staged_count ts = (\<Sum>t\<leftarrow>ts. unat (word_count (header t)) + 1)"

text \<open>
  What holds of the state in every configuration the system reaches: it is one of the
  three codes; it is \<open>READY\<close> from the moment the polling context has seen it so (line
  320) until \<^verbatim>\<open>init\<close> writes \<open>BOS\<close>; and it is not \<open>BOS\<close> once the handler is past its
  entry.
\<close>

definition spill_inv :: "machine \<Rightarrow> bool" where
  "spill_inv s \<longleftrightarrow>
     state s \<in> {BOS, EOS, READY} \<and>
     (pc s \<in> {InitBanks, InitState} \<longrightarrow> state s = READY) \<and>
     (hbusy s \<longrightarrow> state s \<noteq> BOS)"

section \<open>Pointer arithmetic\<close>

declare sd_to_dp.simps [simp del]
declare initLoop.simps [simp del]
declare copyWords.simps [simp del]

lemma unat_ptr_add:
  assumes "unat a + 4 * k < 2 ^ 32"
  shows "unat (ptr_add a (of_nat k)) = unat a + 4 * k"
proof -
  have k: "k < 2 ^ 32" using assms by simp
  have "unat (4 * (of_nat k :: u32)) = 4 * k"
    using assms by (simp add: unat_word_ariths unat_of_nat)
  moreover have "unat a + unat (4 * (of_nat k :: u32)) < 2 ^ LENGTH(32)"
    using assms calculation by simp
  ultimately show ?thesis
    unfolding ptr_add_def using unat_add_lem [of a "4 * of_nat k"] by simp
qed

lemma apart_neq:
  assumes "apart a k b l" "i < k" "j < l"
  shows "ptr_add a (of_nat i) \<noteq> ptr_add b (of_nat j)"
proof -
  have ua: "unat (ptr_add a (of_nat i)) = unat a + 4 * i"
    using assms by (intro unat_ptr_add) (simp add: apart_def)
  have ub: "unat (ptr_add b (of_nat j)) = unat b + 4 * j"
    using assms by (intro unat_ptr_add) (simp add: apart_def)
  have "unat a + 4 * i \<noteq> unat b + 4 * j"
    using assms by (auto simp: apart_def)
  then show ?thesis using ua ub by metis
qed

lemma ptr_add_0 [simp]: "ptr_add a 0 = a"
  by (simp add: ptr_add_def)

lemma ptr_add_add: "ptr_add (ptr_add a j) k = ptr_add a (j + k)"
  by (simp add: ptr_add_def algebra_simps)

lemma ptr_add_Suc: "ptr_add (ptr_add a 1) (of_nat j) = ptr_add a (of_nat (Suc j))"
  by (simp add: ptr_add_def algebra_simps)

lemma no_wrap_distinct:
  assumes "unat a + 4 * n \<le> 2 ^ 32" "j < n" "k < n" "j \<noteq> k"
  shows "ptr_add a (of_nat j) \<noteq> ptr_add a (of_nat k)"
proof -
  have "unat (ptr_add a (of_nat j)) = unat a + 4 * j" "unat (ptr_add a (of_nat k)) = unat a + 4 * k"
    using assms by (simp_all add: unat_ptr_add)
  with assms(4) show ?thesis by (metis add_left_cancel mult_cancel1 zero_neq_numeral)
qed


section \<open>The copy loop of the drain handler\<close>

lemma sd_to_dp_fst: "fst (sd_to_dp i dp sd m) = ptr_add dp i"
proof (induction i dp sd m rule: sd_to_dp.induct)
  case (1 i dp sd m)
  show ?case
  proof (cases "i = 0")
    case True then show ?thesis by (subst sd_to_dp.simps) simp
  next
    case False
    with 1 show ?thesis by (subst sd_to_dp.simps) (simp add: ptr_add_add fun_upd_def)
  qed
qed

lemma sd_to_dp_cursor: "fst (snd (sd_to_dp i dp sd m)) = ptr_add sd i"
proof (induction i dp sd m rule: sd_to_dp.induct)
  case (1 i dp sd m)
  show ?case
  proof (cases "i = 0")
    case True then show ?thesis by (subst sd_to_dp.simps) simp
  next
    case False
    with 1 show ?thesis by (subst sd_to_dp.simps) (simp add: ptr_add_add fun_upd_def)
  qed
qed

lemma sd_to_dp_frame:
  "(\<And>j. j < unat i \<Longrightarrow> a \<noteq> ptr_add dp (of_nat j)) \<Longrightarrow>
   snd (snd (sd_to_dp i dp sd m)) a = m a"
proof (induction i dp sd m rule: sd_to_dp.induct)
  case (1 i dp sd m)
  show ?case
  proof (cases "i = 0")
    case True then show ?thesis by (subst sd_to_dp.simps) simp
  next
    case False
    have a0: "a \<noteq> dp" using "1.prems" [of 0] False by (simp add: unat_gt_0)
    have "snd (snd (sd_to_dp (i - 1) (ptr_add dp 1) (ptr_add sd 1) (m(dp := m sd)))) a
          = (m(dp := m sd)) a"
    proof (rule "1.IH" [unfolded fun_upd_def [symmetric], OF False])
      fix j assume j: "j < unat (i - 1)"
      then have "Suc j < unat i" using False by (simp add: unat_minus_one)
      from "1.prems" [OF this] show "a \<noteq> ptr_add (ptr_add dp 1) (word_of_nat j)"
        by (simp add: ptr_add_add add.commute)
    qed
    with a0 False show ?thesis by (subst sd_to_dp.simps) simp
  qed
qed

lemma sd_to_dp_copied:
  assumes "\<And>j k. j < unat i \<Longrightarrow> k < unat i \<Longrightarrow> ptr_add sd (of_nat j) \<noteq> ptr_add dp (of_nat k)"
    and "\<And>j k. j < unat i \<Longrightarrow> k < unat i \<Longrightarrow> j \<noteq> k \<Longrightarrow> ptr_add dp (of_nat j) \<noteq> ptr_add dp (of_nat k)"
    and "j < unat i"
  shows "snd (snd (sd_to_dp i dp sd m)) (ptr_add dp (of_nat j)) = m (ptr_add sd (of_nat j))"
  using assms
proof (induction i dp sd m arbitrary: j rule: sd_to_dp.induct)
  case (1 i dp sd m)
  from "1.prems"(3) have nz: "i \<noteq> 0" by (auto simp: unat_gt_0 [symmetric])
  let ?m = "m(dp := m sd)"
  let ?r = "sd_to_dp (i - 1) (ptr_add dp 1) (ptr_add sd 1) ?m"
  have unf: "sd_to_dp i dp sd m = ?r" using nz by (subst sd_to_dp.simps) simp
  have pred: "unat (i - 1) = unat i - 1" using nz by (simp add: unat_minus_one)
  show ?case
  proof (cases j)
    case 0
    have "snd (snd ?r) dp = ?m dp"
    proof (rule sd_to_dp_frame)
      fix k assume "k < unat (i - 1)"
      then have "Suc k < unat i" using pred by simp
      from "1.prems"(2) [of 0 "Suc k", OF _ this] nz
      show "dp \<noteq> ptr_add (ptr_add dp 1) (word_of_nat k)"
        by (simp add: ptr_add_Suc unat_gt_0)
    qed
    with 0 unf show ?thesis by simp
  next
    case (Suc j')
    have j': "j' < unat (i - 1)" using Suc "1.prems"(3) pred by simp
    have "snd (snd ?r) (ptr_add (ptr_add dp 1) (of_nat j')) = ?m (ptr_add (ptr_add sd 1) (of_nat j'))"
    proof (rule "1.IH" [unfolded fun_upd_def [symmetric], OF nz _ _ j'])
      fix a b assume "a < unat (i - 1)" "b < unat (i - 1)"
      then have "Suc a < unat i" "Suc b < unat i" using pred by simp_all
      then show "ptr_add (ptr_add sd 1) (word_of_nat a) \<noteq> ptr_add (ptr_add dp 1) (word_of_nat b)"
        unfolding ptr_add_Suc by (rule "1.prems"(1))
    next
      fix a b assume "a < unat (i - 1)" "b < unat (i - 1)" "a \<noteq> b"
      then have "Suc a < unat i" "Suc b < unat i" "Suc a \<noteq> Suc b" using pred by simp_all
      then show "ptr_add (ptr_add dp 1) (word_of_nat a) \<noteq> ptr_add (ptr_add dp 1) (word_of_nat b)"
        unfolding ptr_add_Suc by (rule "1.prems"(2))
    qed
    moreover have "ptr_add sd (of_nat (Suc j')) \<noteq> dp"
      using "1.prems"(1) [of "Suc j'" 0] Suc "1.prems"(3) by simp
    ultimately show ?thesis using Suc unf by (simp add: ptr_add_Suc)
  qed
qed

section \<open>Evaluating on concrete configurations\<close>

lemmas map_consts = NDPWORDS_def BOS_def EOS_def READY_def dpStartAddr_def sdStartAddr_def
  ptr_add_def

lemma words_at_0: "words_at m a 0 = []"
  by (simp add: words_at_def)

lemma words_at_Suc: "words_at m a (Suc k) = m a # words_at m (ptr_add a 1) k"
proof -
  have "[0..<Suc k] = 0 # map Suc [0..<k]"
    by (simp add: upt_conv_Cons map_Suc_upt del: upt_Suc)
  then show ?thesis
    by (simp add: words_at_def comp_def ptr_add_def algebra_simps del: upt_Suc)
qed

lemma words_at_numeral:
  "words_at m a (numeral k) = m a # words_at m (ptr_add a 1) (pred_numeral k)"
  by (simp add: numeral_eq_Suc words_at_Suc)

lemma words_at_1: "words_at m a 1 = [m a]"
  using words_at_Suc [of m a 0] by (simp add: words_at_0)

lemmas words_at_eval = words_at_0 words_at_1 words_at_Suc words_at_numeral


section \<open>One mailbox batch\<close>

lemma batch_le: "unat (batch s) \<le> 32767"
proof -
  have "batch s \<le> NDPWORDS - 1" by (simp add: batch_def)
  then show ?thesis by (simp add: word_le_nat_alt NDPWORDS_def)
qed

lemma drainBatch_unfold:
  "drainBatch s =
     (let r = sd_to_dp (batch s) (ptr_add dpStartAddr 1) (currentSDAddr s) ((mem s)(dpStartAddr := batch s))
      in s\<lparr>mem := snd (snd r), currentSDAddr := fst (snd r),
            nWordsTotal := nWordsTotal s - batch s,
            state := (if nWordsTotal s - batch s = 0 then READY else state s)\<rparr>)"
  by (auto simp: drainBatch_def batch_def Let_def min_def split: prod.splits)

lemma drainBatch_total: "nWordsTotal (drainBatch s) = nWordsTotal s - batch s"
  by (simp add: drainBatch_unfold Let_def)

lemma drainBatch_state:
  "state (drainBatch s) = (if nWordsTotal s - batch s = 0 then READY else state s)"
  by (simp add: drainBatch_unfold Let_def)

lemma drainBatch_cursor: "currentSDAddr (drainBatch s) = ptr_add (currentSDAddr s) (batch s)"
  by (simp add: drainBatch_unfold Let_def sd_to_dp_cursor)

lemma drainBatch_count:
  assumes "unat dpStartAddr + 4 * (unat (batch s) + 1) \<le> 2 ^ 32"
  shows "mem (drainBatch s) dpStartAddr = batch s"
proof -
  have "snd (snd (sd_to_dp (batch s) (ptr_add dpStartAddr 1) (currentSDAddr s)
          ((mem s)(dpStartAddr := batch s)))) dpStartAddr = ((mem s)(dpStartAddr := batch s)) dpStartAddr"
  proof (rule sd_to_dp_frame)
    fix j assume "j < unat (batch s)"
    then have "ptr_add dpStartAddr (of_nat 0) \<noteq> ptr_add dpStartAddr (of_nat (Suc j))"
      using assms by (intro no_wrap_distinct [where n = "unat (batch s) + 1"]) simp_all
    then show "dpStartAddr \<noteq> ptr_add (ptr_add dpStartAddr 1) (word_of_nat j)"
      unfolding ptr_add_Suc by simp
  qed
  then show ?thesis by (simp add: drainBatch_unfold Let_def)
qed

lemma dp_no_wrap: "unat dpStartAddr + 4 * (unat (batch s) + 1) \<le> 2 ^ 32"
  using batch_le [of s] by (simp add: dpStartAddr_def)

lemma drainBatch_body:
  assumes ap: "apart (currentSDAddr s) (unat (batch s)) dpStartAddr (unat (batch s) + 1)"
    and j: "j < unat (batch s)"
  shows "mem (drainBatch s) (ptr_add (ptr_add dpStartAddr 1) (of_nat j))
         = mem s (ptr_add (currentSDAddr s) (of_nat j))"
proof -
  let ?m = "(mem s)(dpStartAddr := batch s)"
  have "snd (snd (sd_to_dp (batch s) (ptr_add dpStartAddr 1) (currentSDAddr s) ?m))
          (ptr_add (ptr_add dpStartAddr 1) (of_nat j)) = ?m (ptr_add (currentSDAddr s) (of_nat j))"
  proof (rule sd_to_dp_copied [OF _ _ j])
    fix a b assume "a < unat (batch s)" "b < unat (batch s)"
    then show "ptr_add (currentSDAddr s) (word_of_nat a) \<noteq> ptr_add (ptr_add dpStartAddr 1) (word_of_nat b)"
      unfolding ptr_add_Suc using ap by (intro apart_neq [OF ap]) simp_all
  next
    fix a b assume "a < unat (batch s)" "b < unat (batch s)" "a \<noteq> b"
    then show "ptr_add (ptr_add dpStartAddr 1) (word_of_nat a) \<noteq> ptr_add (ptr_add dpStartAddr 1) (word_of_nat b)"
      unfolding ptr_add_Suc using dp_no_wrap [of s]
      by (intro no_wrap_distinct [where n = "unat (batch s) + 1"]) simp_all
  qed
  moreover have "ptr_add (currentSDAddr s) (of_nat j) \<noteq> dpStartAddr"
    using apart_neq [OF ap j, of 0] by simp
  ultimately show ?thesis by (simp add: drainBatch_unfold Let_def)
qed

lemma drainBatch_words:
  assumes "apart (currentSDAddr s) (unat (batch s)) dpStartAddr (unat (batch s) + 1)"
  shows "words_at (mem (drainBatch s)) (ptr_add dpStartAddr 1) (unat (batch s))
         = words_at (mem s) (currentSDAddr s) (unat (batch s))"
  unfolding words_at_def using drainBatch_body [OF assms] by simp


lemma enterEOS_simps:
  "mem (enterEOS s) = mem s" "nWordsTotal (enterEOS s) = nWordsTotal s"
  "currentSDAddr (enterEOS s) = (if state s = BOS then sdStartAddr else currentSDAddr s)"
  "state (enterEOS s) = (if state s = BOS then EOS else state s)"
  "batch (enterEOS s) = batch s"
  by (simp_all add: enterEOS_def batch_def)


lemma drainBatch_frame:
  assumes "\<And>j. j < unat (batch s) + 1 \<Longrightarrow> a \<noteq> ptr_add dpStartAddr (of_nat j)"
  shows "mem (drainBatch s) a = mem s a"
proof -
  let ?m = "(mem s)(dpStartAddr := batch s)"
  have "snd (snd (sd_to_dp (batch s) (ptr_add dpStartAddr 1) (currentSDAddr s) ?m)) a = ?m a"
  proof (rule sd_to_dp_frame)
    fix j assume "j < unat (batch s)"
    then show "a \<noteq> ptr_add (ptr_add dpStartAddr 1) (word_of_nat j)"
      unfolding ptr_add_Suc by (intro assms) simp
  qed
  moreover have "a \<noteq> dpStartAddr" using assms [of 0] by simp
  ultimately show ?thesis by (simp add: drainBatch_unfold Let_def)
qed

section \<open>The drain handler\<close>

text \<open>
  C2.  A drain invocation whose level read is not high, so that it passes the check of
  line 189, moves \<open>n = min (NDPWORDS - 1) nWordsTotal\<close> words: it writes \<open>n\<close> to the first
  word of the dual-port RAM, copies the \<open>n\<close> words at the read cursor into the words
  after it and stores to no other address, advances the read cursor by \<open>n\<close>, takes \<open>n\<close>
  off the occupied count, and writes \<open>READY\<close> to the state exactly when the occupied
  count has reached zero; otherwise the state is what the entry left (\<open>EOS\<close> if it was
  \<open>BOS\<close>).  Nothing else of the machine changes.  The read cursor is \<open>sdStartAddr\<close> on
  the first call of a spill, \<open>currentSDAddr\<close> afterwards.  That the mailbox body then
  holds the words that were at the read cursor needs these to lie apart from the mailbox,
  as the SDRAM does.
\<close>

theorem drain_invocation:
  fixes s :: machine and dp_lev a :: u32
  defines "n \<equiv> min (NDPWORDS - 1) (nWordsTotal s)"
  defines "rd \<equiv> (if state s = BOS then sdStartAddr else currentSDAddr s)"
  defines "s' \<equiv> beamOffTransfer dp_lev s"
  assumes "dp_lev \<noteq> 1"
  shows "mem s' dpStartAddr = n \<and>
         (apart rd (unat n) dpStartAddr (unat n + 1) \<longrightarrow>
            words_at (mem s') (ptr_add dpStartAddr 1) (unat n) = words_at (mem s) rd (unat n)) \<and>
         ((\<forall>j\<le>unat n. a \<noteq> ptr_add dpStartAddr (of_nat j)) \<longrightarrow> mem s' a = mem s a) \<and>
         currentSDAddr s' = ptr_add rd n \<and>
         nWordsTotal s' = nWordsTotal s - n \<and>
         state s' = (if nWordsTotal s - n = 0 then READY
                     else if state s = BOS then EOS else state s) \<and>
         s' = s\<lparr>state := state s', nWordsTotal := nWordsTotal s', currentSDAddr := currentSDAddr s',
                mem := mem s'\<rparr>"
proof -
  have s': "s' = drainBatch (enterEOS s)"
    using assms(4) by (simp add: s'_def beamOffTransfer_def)
  have n: "n = batch (enterEOS s)" by (simp add: n_def batch_def enterEOS_simps)
  have rd: "rd = currentSDAddr (enterEOS s)" by (simp add: rd_def enterEOS_simps)
  have "mem s' dpStartAddr = n"
    unfolding s' n by (rule drainBatch_count [OF dp_no_wrap])
  moreover have "words_at (mem s') (ptr_add dpStartAddr 1) (unat n) = words_at (mem s) rd (unat n)"
    if "apart rd (unat n) dpStartAddr (unat n + 1)"
  proof -
    have ap: "apart (currentSDAddr (enterEOS s)) (unat (batch (enterEOS s))) dpStartAddr
                (unat (batch (enterEOS s)) + 1)"
      using that n rd by simp
    show ?thesis
      unfolding s' n rd using drainBatch_words [OF ap] by (simp add: enterEOS_simps)
  qed
  moreover have "mem s' a = mem s a" if out: "\<forall>j\<le>unat n. a \<noteq> ptr_add dpStartAddr (of_nat j)"
  proof -
    have "mem (drainBatch (enterEOS s)) a = mem (enterEOS s) a"
    proof (rule drainBatch_frame)
      fix j assume "j < unat (batch (enterEOS s)) + 1"
      then have "j \<le> unat n" using n by simp
      with out show "a \<noteq> ptr_add dpStartAddr (word_of_nat j)" by blast
    qed
    then show ?thesis by (simp add: s' enterEOS_simps)
  qed
  moreover have "currentSDAddr s' = ptr_add rd n"
    unfolding s' n rd by (rule drainBatch_cursor)
  moreover have "nWordsTotal s' = nWordsTotal s - n"
    unfolding s' n by (simp add: drainBatch_total enterEOS_simps)
  moreover have "state s' = (if nWordsTotal s - n = 0 then READY
                     else if state s = BOS then EOS else state s)"
    unfolding s' n by (simp add: drainBatch_state enterEOS_simps)
  moreover have "s' = s\<lparr>state := state s', nWordsTotal := nWordsTotal s',
                currentSDAddr := currentSDAddr s', mem := mem s'\<rparr>"
    unfolding s' by (simp add: drainBatch_unfold Let_def enterEOS_def)
  ultimately show ?thesis by blast
qed

theorem drain_invocation_witness:
  "(0::u32) \<noteq> 1 \<and> apart sdStartAddr 4 dpStartAddr 5 \<and>
   mem (beamOffTransfer 0 staged) dpStartAddr = 4 \<and>
   words_at (mem (beamOffTransfer 0 staged)) (ptr_add dpStartAddr 1) 4
     = [0x00300000, 11, 21, 0xF] \<and>
   mem (beamOffTransfer 0 staged) (ptr_add dpStartAddr 5) = mem staged (ptr_add dpStartAddr 5) \<and>
   currentSDAddr (beamOffTransfer 0 staged) = 0x20008010 \<and>
   nWordsTotal (beamOffTransfer 0 staged) = 0 \<and>
   state (beamOffTransfer 0 staged) = READY \<and>
   sdAddr (beamOffTransfer 0 staged) = sdAddr staged"
proof -
  have a: "(0::u32) \<noteq> 1" by simp
  have pre: "state staged = BOS" "nWordsTotal staged = 4"
    "min (NDPWORDS - 1) (nWordsTotal staged) = 4"
    by (simp_all add: staged_def boot_def map_consts)
  have b: "apart sdStartAddr 4 dpStartAddr 5"
    by (simp add: apart_def map_consts)
  have src: "words_at (mem staged) sdStartAddr 4 = [0x00300000, 11, 21, 0xF]"
    by (simp add: words_at_eval staged_def boot_def map_consts)
  have c: "ptr_add sdStartAddr 4 = 0x20008010" by (simp add: map_consts)
  have out: "\<forall>j\<le>4. ptr_add dpStartAddr 5 \<noteq> ptr_add dpStartAddr (of_nat j)"
  proof (intro allI impI)
    fix j :: nat assume "j \<le> 4"
    then show "ptr_add dpStartAddr 5 \<noteq> ptr_add dpStartAddr (of_nat j)"
      using no_wrap_distinct [of dpStartAddr 6 5 j] by (simp add: dpStartAddr_def)
  qed
  note t = drain_invocation [of 0 staged "ptr_add dpStartAddr 5"]
  have u: "unat (4::u32) = 4" by simp
  from t a pre have e: "beamOffTransfer 0 staged = staged\<lparr>state := state (beamOffTransfer 0 staged),
      nWordsTotal := nWordsTotal (beamOffTransfer 0 staged),
      currentSDAddr := currentSDAddr (beamOffTransfer 0 staged),
      mem := mem (beamOffTransfer 0 staged)\<rparr>" by blast
  have f: "sdAddr (beamOffTransfer 0 staged) = sdAddr staged" by (subst e) simp
  from t a b pre src c out u f show ?thesis by simp
qed


text \<open>
  With the level high the handler returns at once and changes nothing, however often it
  is invoked.
\<close>

lemma drain_noop_when_level_high:
  "beamOffTransfer 1 s = s \<and>
   nWordsTotal (beamOffTransfer 1 (beamOffTransfer 1 s)) = nWordsTotal s \<and>
   state (beamOffTransfer 1 (beamOffTransfer 1 s)) = state s"
  by (simp add: beamOffTransfer_def)

text \<open>
  C3.  An invocation on a falling level is not a no-op: the guard of line 189 returns when
  the pin reads high and goes on when it reads low, against its own comment
  \<^verbatim>\<open>//only trigger on positive edge\<close>.  With four words staged and the beam on, an
  invocation that reads the pin low drains them and moves the state.
\<close>

theorem drain_runs_when_level_low:
  "nWordsTotal (beamOffTransfer 0 staged) \<noteq> nWordsTotal staged \<and>
   state (beamOffTransfer 0 staged) \<noteq> state staged"
  by (simp add: beamOffTransfer_def enterEOS_def drainBatch_unfold batch_def Let_def
      staged_def boot_def map_consts)

section \<open>Staged words on their way through the mailbox\<close>

lemma words_at_length [simp]: "length (words_at m a k) = k"
  by (simp add: words_at_def)

lemma words_at_nth: "j < k \<Longrightarrow> words_at m a k ! j = m (ptr_add a (of_nat j))"
  by (simp add: words_at_def)











section \<open>The copy loop of the ingest\<close>

lemma sint_small:
  assumes "k < 2 ^ 31"
  shows "sint (of_nat k :: u32) = int k"
proof -
  have "int k < 2 ^ 31" using assms by (metis of_nat_less_iff of_nat_numeral of_nat_power)
  moreover have "- (2 ^ 31) \<le> int k" by (rule order_trans [of _ 0]) simp_all
  ultimately show ?thesis
    by (simp add: signed_of_nat signed_take_bit_int_eq_self)
qed

lemma ptr_diff_ptr_add:
  assumes "k < 2 ^ 29"
  shows "ptr_diff (ptr_add a (of_nat k)) a = of_nat k"
proof -
  have k4: "4 * k < 2 ^ 31" using assms by simp
  have "sint (signed_drop_bit 2 (of_nat (4 * k) :: u32)) = drop_bit 2 (int (4 * k))"
    by (simp only: sint_signed_drop_bit_eq sint_small [OF k4])
  also have "\<dots> = int k" by (simp add: drop_bit_eq_div)
  also have "\<dots> = sint (of_nat k :: u32)" using assms by (simp add: sint_small)
  finally have "signed_drop_bit 2 (of_nat (4 * k) :: u32) = of_nat k"
    by (rule signed_word_eqI)
  then show ?thesis by (simp add: ptr_diff_def ptr_add_def)
qed

lemma copyWords_0: "loop_i s = 0 \<Longrightarrow> copyWords s = s"
  by (subst copyWords.simps) simp

lemma copyWords_step: "loop_i s \<noteq> 0 \<Longrightarrow> copyWords s = copyWords (copyWord s)"
  by (subst copyWords.simps) simp

lemma copyWord_simps:
  "sdAddr (copyWord s) = ptr_add (sdAddr s) 1"
  "dpAddr (copyWord s) = ptr_add (dpAddr s) 1"
  "loop_i (copyWord s) = loop_i s - 1"
  "mem (copyWord s) = (mem s)(sdAddr s := mem s (dpAddr s) + 1)"
  "state (copyWord s) = state s"
  "nWordsTotal (copyWord s) = nWordsTotal s"
  "header (copyWord s) = header s"
  "nWords (copyWord s) = nWords s"
  "eventID (copyWord s) = eventID s"
  "currentDPBank (copyWord s) = currentDPBank s"
  "dpBankStartAddr (copyWord s) = dpBankStartAddr s"
  "dpBankLastAddr (copyWord s) = dpBankLastAddr s"
  "currentSDAddr (copyWord s) = currentSDAddr s"
  "pc (copyWord s) = pc s"
  "hbusy (copyWord s) = hbusy s"
  by (simp_all add: copyWord_def)

lemma copyWords_sdAddr: "sdAddr (copyWords s) = ptr_add (sdAddr s) (loop_i s)"
proof (induction s rule: copyWords.induct)
  case (1 s)
  show ?case
  proof (cases "loop_i s = 0")
    case True
    then show ?thesis by (simp add: copyWords_0)
  next
    case False
    with 1 show ?thesis
      by (simp add: copyWords_step copyWord_simps ptr_add_add)
  qed
qed

lemma copyWords_same:
  "state (copyWords s) = state s \<and> nWordsTotal (copyWords s) = nWordsTotal s \<and>
   header (copyWords s) = header s \<and> nWords (copyWords s) = nWords s \<and>
   eventID (copyWords s) = eventID s \<and> currentDPBank (copyWords s) = currentDPBank s \<and>
   dpBankStartAddr (copyWords s) = dpBankStartAddr s \<and>
   dpBankLastAddr (copyWords s) = dpBankLastAddr s \<and>
   currentSDAddr (copyWords s) = currentSDAddr s \<and> pc (copyWords s) = pc s \<and>
   hbusy (copyWords s) = hbusy s"
proof (induction s rule: copyWords.induct)
  case (1 s)
  show ?case
  proof (cases "loop_i s = 0")
    case True
    then show ?thesis by (simp add: copyWords_0)
  next
    case False
    with 1 show ?thesis
      by (simp add: copyWords_step copyWord_simps)
  qed
qed

lemma copyWords_frame:
  "(\<And>j. j < unat (loop_i s) \<Longrightarrow> a \<noteq> ptr_add (sdAddr s) (of_nat j)) \<Longrightarrow>
   mem (copyWords s) a = mem s a"
proof (induction s rule: copyWords.induct)
  case (1 s)
  show ?case
  proof (cases "loop_i s = 0")
    case True
    then show ?thesis by (simp add: copyWords_0)
  next
    case False
    have a0: "a \<noteq> sdAddr s" using "1.prems" [of 0] False by (simp add: unat_gt_0)
    have "mem (copyWords (copyWord s)) a = mem (copyWord s) a"
    proof (rule "1.IH" [OF False])
      fix j assume "j < unat (loop_i (copyWord s))"
      then have "Suc j < unat (loop_i s)"
        using False by (simp add: copyWord_simps unat_minus_one)
      from "1.prems" [OF this] show "a \<noteq> ptr_add (sdAddr (copyWord s)) (word_of_nat j)"
        unfolding copyWord_simps ptr_add_Suc .
    qed
    with a0 False show ?thesis by (simp add: copyWords_step copyWord_simps)
  qed
qed

lemma copyWords_copied:
  assumes "\<And>j k. j < unat (loop_i s) \<Longrightarrow> k < unat (loop_i s) \<Longrightarrow>
             ptr_add (dpAddr s) (of_nat j) \<noteq> ptr_add (sdAddr s) (of_nat k)"
    and "\<And>j k. j < unat (loop_i s) \<Longrightarrow> k < unat (loop_i s) \<Longrightarrow> j \<noteq> k \<Longrightarrow>
             ptr_add (sdAddr s) (of_nat j) \<noteq> ptr_add (sdAddr s) (of_nat k)"
    and "j < unat (loop_i s)"
  shows "mem (copyWords s) (ptr_add (sdAddr s) (of_nat j)) = mem s (ptr_add (dpAddr s) (of_nat j)) + 1"
  using assms
proof (induction s arbitrary: j rule: copyWords.induct)
  case (1 s)
  from "1.prems"(3) have nz: "loop_i s \<noteq> 0" by (auto simp: unat_gt_0 [symmetric])
  let ?s = "copyWord s"
  have pred: "unat (loop_i ?s) = unat (loop_i s) - 1"
    using nz by (simp add: copyWord_simps unat_minus_one)
  show ?case
  proof (cases j)
    case 0
    have "mem (copyWords ?s) (sdAddr s) = mem ?s (sdAddr s)"
    proof (rule copyWords_frame)
      fix k assume "k < unat (loop_i ?s)"
      then have "Suc k < unat (loop_i s)" using pred by simp
      from "1.prems"(2) [of 0 "Suc k", OF _ this] nz
      show "sdAddr s \<noteq> ptr_add (sdAddr ?s) (word_of_nat k)"
        by (simp add: copyWord_simps ptr_add_Suc unat_gt_0)
    qed
    with 0 nz show ?thesis by (simp add: copyWords_step copyWord_simps)
  next
    case (Suc j')
    have j': "j' < unat (loop_i ?s)" using Suc "1.prems"(3) pred by simp
    have "mem (copyWords ?s) (ptr_add (sdAddr ?s) (of_nat j')) = mem ?s (ptr_add (dpAddr ?s) (of_nat j')) + 1"
    proof (rule "1.IH" [OF nz _ _ j'])
      fix a b assume "a < unat (loop_i ?s)" "b < unat (loop_i ?s)"
      then have "Suc a < unat (loop_i s)" "Suc b < unat (loop_i s)" using pred by simp_all
      then show "ptr_add (dpAddr ?s) (word_of_nat a) \<noteq> ptr_add (sdAddr ?s) (word_of_nat b)"
        unfolding copyWord_simps ptr_add_Suc by (rule "1.prems"(1))
    next
      fix a b assume "a < unat (loop_i ?s)" "b < unat (loop_i ?s)" "a \<noteq> b"
      then have "Suc a < unat (loop_i s)" "Suc b < unat (loop_i s)" "Suc a \<noteq> Suc b"
        using pred by simp_all
      then show "ptr_add (sdAddr ?s) (word_of_nat a) \<noteq> ptr_add (sdAddr ?s) (word_of_nat b)"
        unfolding copyWord_simps ptr_add_Suc by (rule "1.prems"(2))
    qed
    moreover have "ptr_add (dpAddr s) (of_nat (Suc j')) \<noteq> sdAddr s"
      using "1.prems"(1) [of "Suc j'" 0] Suc "1.prems"(3) by simp
    ultimately show ?thesis
      using Suc nz by (simp add: copyWords_step copyWord_simps ptr_add_Suc)
  qed
qed

lemma copyWords_simps:
  "state (copyWords s) = state s" "nWordsTotal (copyWords s) = nWordsTotal s"
  "header (copyWords s) = header s" "nWords (copyWords s) = nWords s"
  "eventID (copyWords s) = eventID s" "currentDPBank (copyWords s) = currentDPBank s"
  "dpBankStartAddr (copyWords s) = dpBankStartAddr s"
  "dpBankLastAddr (copyWords s) = dpBankLastAddr s"
  "currentSDAddr (copyWords s) = currentSDAddr s" "pc (copyWords s) = pc s"
  "hbusy (copyWords s) = hbusy s"
  using copyWords_same [of s] by simp_all

lemmas stmt_defs = extractFields_def pushHeader_def copyInit_def pushFooter_def
  clearHeader_def advanceBank_def updateTotal_def bankStart_def bankLast_def

text \<open>The machine as the copy loop finds it.\<close>

lemma before_loop:
  fixes s :: machine
  defines "s3 \<equiv> copyInit (pushHeader (extractFields s))"
  shows "sdAddr s3 = ptr_add (sdAddr s) 1" "dpAddr s3 = ptr_add (bankStart s) 1"
    "loop_i s3 = word_count (header s) - 1" "mem s3 = (mem s)(sdAddr s := header s)"
    "eventID s3 = mem s (bankLast s)"
  by (simp_all add: s3_def stmt_defs)

lemma ptr_add_pred: "ptr_add (ptr_add a 1) (n - 1) = ptr_add a n"
  by (simp add: ptr_add_def algebra_simps)

lemma copyBank_sdAddr: "sdAddr (copyBank s) = ptr_add (sdAddr s) (word_count (header s) + 1)"
  by (simp add: copyBank_def stmt_defs copyWords_sdAddr copyWords_simps ptr_add_def algebra_simps)

lemma copyBank_mem:
  "mem (copyBank s) =
     (mem (copyWords (copyInit (pushHeader (extractFields s)))))
       (ptr_add (sdAddr s) (word_count (header s)) := mem s (bankLast s), bankStart s := 0)"
  by (simp add: copyBank_def stmt_defs copyWords_sdAddr copyWords_simps ptr_add_def algebra_simps)

lemma copyBank_simps:
  "state (copyBank s) = state s" "nWordsTotal (copyBank s) = nWordsTotal s"
  "header (copyBank s) = header s" 
  "currentDPBank (copyBank s) = nextBank (currentDPBank s)"
  "dpBankStartAddr (copyBank s) = dpBankStartAddr s"
  "dpBankLastAddr (copyBank s) = dpBankLastAddr s"
  "currentSDAddr (copyBank s) = currentSDAddr s" "pc (copyBank s) = pc s"
  "hbusy (copyBank s) = hbusy s"
  by (simp_all add: copyBank_def stmt_defs copyWords_simps)

lemma record_block:
  fixes s :: machine
  defines "n \<equiv> unat (word_count (header s))"
  assumes n1: "1 \<le> n" and ap: "apart (sdAddr s) (n + 1) (bankStart s) n" and k: "k \<le> n"
  shows "mem (copyBank s) (ptr_add (sdAddr s) (of_nat k)) =
           (if k = 0 then header s
            else if k = n then mem s (bankLast s)
            else mem s (ptr_add (bankStart s) (of_nat k)) + 1)"
proof -
  let ?sd = "sdAddr s" and ?b = "bankStart s" and ?wc = "word_count (header s)"
  let ?s3 = "copyInit (pushHeader (extractFields s))"
  note bl = before_loop [of s]
  have wc: "?wc = of_nat n" by (simp add: n_def)
  have li: "unat (loop_i ?s3) = n - 1"
    using n1 by (simp add: bl n_def unat_sub word_le_nat_alt)
  have nowrap: "unat ?sd + 4 * (n + 1) \<le> 2 ^ 32" using ap by (simp add: apart_def)
  have dist: "ptr_add ?sd (of_nat i) \<noteq> ptr_add ?sd (of_nat j)"
    if "i \<le> n" "j \<le> n" "i \<noteq> j" for i j
    using that by (intro no_wrap_distinct [OF nowrap]) simp_all
  have off: "ptr_add ?sd (of_nat i) \<noteq> ptr_add ?b (of_nat j)" if "i \<le> n" "j < n" for i j
    using that by (intro apart_neq [OF ap]) simp_all
  have nb: "ptr_add ?sd (of_nat k) \<noteq> ?b" using off [of k 0] k n1 by simp
  show ?thesis
  proof (cases "k = n")
    case True
    with nb n1 show ?thesis by (simp add: copyBank_mem wc)
  next
    case False
    then have kn: "k < n" using k by simp
    have nf: "ptr_add ?sd (of_nat k) \<noteq> ptr_add ?sd (of_nat n)"
      using dist [of k n] kn by simp
    have cb: "mem (copyBank s) (ptr_add ?sd (of_nat k)) = mem (copyWords ?s3) (ptr_add ?sd (of_nat k))"
      using nb nf by (simp add: copyBank_mem wc)
    show ?thesis
    proof (cases k)
      case 0
      have "mem (copyWords ?s3) ?sd = mem ?s3 ?sd"
      proof (rule copyWords_frame)
        fix j assume "j < unat (loop_i ?s3)"
        then have "Suc j \<le> n" using li by simp
        from dist [of 0 "Suc j"] this
        show "?sd \<noteq> ptr_add (sdAddr ?s3) (word_of_nat j)"
          unfolding bl ptr_add_Suc by simp
      qed
      with 0 cb show ?thesis by (simp add: bl)
    next
      case (Suc k')
      have k': "k' < unat (loop_i ?s3)" using Suc kn li by simp
      have "mem (copyWords ?s3) (ptr_add (sdAddr ?s3) (of_nat k'))
            = mem ?s3 (ptr_add (dpAddr ?s3) (of_nat k')) + 1"
      proof (rule copyWords_copied [OF _ _ k'])
        fix a c assume "a < unat (loop_i ?s3)" "c < unat (loop_i ?s3)"
        then have "Suc c \<le> n" "Suc a < n" using li by simp_all
        from off [OF this]
        show "ptr_add (dpAddr ?s3) (word_of_nat a) \<noteq> ptr_add (sdAddr ?s3) (word_of_nat c)"
          unfolding bl ptr_add_Suc by (rule not_sym)
      next
        fix a c assume "a < unat (loop_i ?s3)" "c < unat (loop_i ?s3)" "a \<noteq> c"
        then have "Suc a \<le> n" "Suc c \<le> n" "Suc a \<noteq> Suc c" using li by simp_all
        from dist [OF this]
        show "ptr_add (sdAddr ?s3) (word_of_nat a) \<noteq> ptr_add (sdAddr ?s3) (word_of_nat c)"
          unfolding bl ptr_add_Suc .
      qed
      moreover have "ptr_add ?b (of_nat k) \<noteq> ?sd" using off [of 0 k] kn by (simp add: not_sym)
      ultimately show ?thesis
        using cb Suc False unfolding bl ptr_add_Suc by simp
    qed
  qed
qed


section \<open>One bank consumed\<close>

lemma consumeBank_sdAddr:
  "sdAddr (consumeBank s) = ptr_add (sdAddr s) (of_nat (unat (word_count (header s)) + 1))"
  by (simp add: consumeBank_def updateTotal_def copyBank_sdAddr add.commute)

lemma consumeBank_total:
  "nWordsTotal (consumeBank s) = ptr_diff (sdAddr (consumeBank s)) sdStartAddr"
  by (simp add: consumeBank_def updateTotal_def)

lemma chain_cursor:
  "record_starts s ts \<Longrightarrow>
   sdAddr (ingest_end s ts) = ptr_add (sdAddr s) (of_nat (staged_count ts))"
proof (induction ts arbitrary: s)
  case Nil
  then show ?case by (simp add: staged_count_def)
next
  case (Cons t ts)
  then have "sdAddr (ingest_end (consumeBank t) ts)
             = ptr_add (sdAddr (consumeBank t)) (of_nat (staged_count ts))" by simp
  with Cons.prems show ?case
    by (simp add: consumeBank_sdAddr ptr_add_add staged_count_def algebra_simps)
qed

lemma chain_total:
  "nWordsTotal (ingest_end s ts) =
     (if ts = [] then nWordsTotal s else ptr_diff (sdAddr (ingest_end s ts)) sdStartAddr)"
proof (induction ts arbitrary: s)
  case Nil
  then show ?case by simp
next
  case (Cons t ts)
  show ?case using Cons.IH [of "consumeBank t"] by (simp add: consumeBank_total)
qed

lemma chain_count:
  assumes "record_starts s ts" "sdAddr s = sdStartAddr" "nWordsTotal s = 0"
    "staged_count ts < 2 ^ 29"
  shows "unat (nWordsTotal (ingest_end s ts)) = staged_count ts"
proof (cases "ts = []")
  case True
  with assms show ?thesis by (simp add: staged_count_def)
next
  case False
  have "nWordsTotal (ingest_end s ts) = of_nat (staged_count ts)"
    using False assms by (simp add: chain_total chain_cursor ptr_diff_ptr_add)
  moreover have "staged_count ts < 2 ^ 32" using assms(4) by simp
  ultimately show ?thesis by (simp add: unat_of_nat)
qed

lemma consumeBank_mem: "mem (consumeBank s) = mem (copyBank s)"
  by (simp add: consumeBank_def updateTotal_def)

lemma record_words:
  fixes s :: machine
  defines "n \<equiv> unat (word_count (header s))"
  assumes n1: "1 \<le> n" and ap: "apart (sdAddr s) (n + 1) (bankStart s) n"
  shows "words_at (mem (consumeBank s)) (sdAddr s) (n + 1) =
           header s # map (\<lambda>w. w + 1) (words_at (mem s) (ptr_add (bankStart s) 1) (n - 1))
             @ [mem s (bankLast s)]"
proof (rule nth_equalityI)
  show "length (words_at (mem (consumeBank s)) (sdAddr s) (n + 1)) =
        length (header s # map (\<lambda>w. w + 1) (words_at (mem s) (ptr_add (bankStart s) 1) (n - 1))
             @ [mem s (bankLast s)])"
    using n1 by simp
next
  fix k assume "k < length (words_at (mem (consumeBank s)) (sdAddr s) (n + 1))"
  then have k: "k \<le> n" by simp
  note rb = record_block [of s k, folded n_def, OF n1 ap k]
  show "words_at (mem (consumeBank s)) (sdAddr s) (n + 1) ! k =
        (header s # map (\<lambda>w. w + 1) (words_at (mem s) (ptr_add (bankStart s) 1) (n - 1))
             @ [mem s (bankLast s)]) ! k"
  proof (cases k)
    case 0
    with rb k show ?thesis by (simp add: words_at_nth consumeBank_mem)
  next
    case (Suc k')
    show ?thesis
    proof (cases "k = n")
      case True
      with rb Suc n1 show ?thesis
        by (simp add: words_at_nth consumeBank_mem nth_append)
    next
      case False
      then have "k' < n - 1" using k Suc by simp
      with rb Suc False show ?thesis
        by (simp add: words_at_nth consumeBank_mem nth_append ptr_add_Suc del: of_nat_Suc)
    qed
  qed
qed

lemma record_frame:
  fixes s :: machine
  defines "n \<equiv> unat (word_count (header s))"
  assumes n1: "1 \<le> n" and out: "\<forall>k\<le>n. a \<noteq> ptr_add (sdAddr s) (of_nat k)"
    and nb: "a \<noteq> bankStart s"
  shows "mem (consumeBank s) a = mem s a"
proof -
  let ?s3 = "copyInit (pushHeader (extractFields s))"
  note bl = before_loop [of s]
  have li: "unat (loop_i ?s3) = n - 1"
    using n1 by (simp add: bl n_def unat_sub word_le_nat_alt)
  have "mem (copyWords ?s3) a = mem ?s3 a"
  proof (rule copyWords_frame)
    fix j assume "j < unat (loop_i ?s3)"
    then have "Suc j \<le> n" using li by simp
    with out show "a \<noteq> ptr_add (sdAddr ?s3) (word_of_nat j)"
      unfolding bl ptr_add_Suc by blast
  qed
  moreover have "a \<noteq> sdAddr s" using out [rule_format, of 0] by simp
  moreover have "a \<noteq> ptr_add (sdAddr s) (word_count (header s))"
    using out [rule_format, of n] by (simp add: n_def)
  ultimately show ?thesis using nb by (simp add: consumeBank_mem copyBank_mem bl)
qed


section \<open>The example configurations, evaluated\<close>

lemma main_run_numeral: "main_run (numeral k) s = main_run (pred_numeral k) (main_step s)"
  by (simp add: numeral_eq_Suc)

lemma main_run_1: "main_run 1 s = main_step s"
  using main_run.simps(2) [of 0 s] by simp

lemmas run_eval = main_run_numeral main_run_1 main_run.simps main_step_def

lemmas init_eval = initBanks_def initLoop.simps initBank_def initState_def initTotal_def
  resetCursors_def NBANKS_def NWORDSPERBANK_def ptr_sub_def Let_def

lemma beam_on_eval:
  "pc beam_on = OuterTest" "state beam_on = BOS" "nWordsTotal beam_on = 0"
  "sdAddr beam_on = sdStartAddr" "currentDPBank beam_on = 0"
  "dpBankStartAddr beam_on 0 = 0x50000000" "dpBankStartAddr beam_on 1 = 0x50001000"
  "dpBankLastAddr beam_on 0 = 0" "dpBankLastAddr beam_on 1 = 0x50001ff4"
  "dpBankStartAddr beam_on (Suc 0) = 0x50001000" "dpBankLastAddr beam_on (Suc 0) = 0x50001ff4"
  "hbusy beam_on = False" "header beam_on = 0" "currentSDAddr beam_on = 0"
  by (simp_all add: beam_on_def boot_def run_eval init_eval map_consts)

lemma beam_on_mem: "mem beam_on = (\<lambda>_. 0)"
  by (rule ext) (simp add: beam_on_def boot_def run_eval init_eval map_consts)

lemma bank1_found_eval:
  "pc bank1_found = Extract" "state bank1_found = BOS" "nWordsTotal bank1_found = 0"
  "sdAddr bank1_found = sdStartAddr" "currentDPBank bank1_found = 1"
  "header bank1_found = 0x00300000" "bankStart bank1_found = 0x50001000"
  "bankLast bank1_found = 0x50001ff4"
  "dpBankStartAddr bank1_found (Suc 0) = 0x50001000"
  "dpBankLastAddr bank1_found (Suc 0) = 0x50001ff4"
  "mem bank1_found = (\<lambda>_. 0)(0x50001000 := 0x00300000, 0x50001004 := 10,
      0x50001008 := 20, 0x50001ff4 := 0xF)"
  by (simp_all add: bank1_found_def bank1_written_def run_eval beam_on_eval beam_on_mem
      readHeader_def scanAdvance_def nextBank_def bankStart_def bankLast_def BANKIDMASK_def
      map_consts)

lemma wc3: "word_count 0x00300000 = 3"
  by (simp add: word_count_def NWORDSMASK_def)

lemmas consume_eval = consumeBank_def copyBank_def stmt_defs copyWords.simps copyWord_def
  nextBank_def BANKIDMASK_def word_count_def NWORDSMASK_def

lemma bank1_consumed_eval:
  "words_at (mem (consumeBank bank1_found)) sdStartAddr 4 = [0x00300000, 11, 21, 0xF]"
  "nWordsTotal (consumeBank bank1_found) = 4"
  "sdAddr (consumeBank bank1_found) = 0x20008010"
  "mem (consumeBank bank1_found) 0x50001000 = 0"
  "currentDPBank (consumeBank bank1_found) = 2"
  "state (consumeBank bank1_found) = BOS"
  by (simp_all add: consume_eval bank1_found_eval words_at_eval map_consts ptr_diff_def)

lemmas scan_eval = readHeader_def scanAdvance_def nextBank_def bankStart_def bankLast_def
  BANKIDMASK_def

lemma const_upd_same [simp]: "(\<lambda>_. c)(a := c) = (\<lambda>_. c)"
  by (rule ext) simp

lemma interrupted_eval:
  "pc interrupted = ScanAdvance" "state interrupted = READY" "nWordsTotal interrupted = 0"
  "header interrupted = 0" "sdAddr interrupted = sdStartAddr" "currentDPBank interrupted = 0"
  "mem interrupted = (\<lambda>_. 0)" "dpBankStartAddr interrupted (Suc 0) = 0x50001000"
  "dpBankLastAddr interrupted (Suc 0) = 0x50001ff4" "hbusy interrupted = False"
  by (simp_all add: interrupted_def run_eval beam_on_eval beam_on_mem scan_eval
      beamOffTransfer_def enterEOS_def drainBatch_unfold batch_def sd_to_dp.simps Let_def
      map_consts)

lemma bank0_found_eval:
  "pc bank0_found = Extract" "currentDPBank bank0_found = 0" "header bank0_found = 0x00200000"
  "sdAddr bank0_found = sdStartAddr"
  "dpBankStartAddr bank0_found 0 = 0x50000000" "dpBankLastAddr bank0_found 0 = 0"
  "mem bank0_found = (\<lambda>_. 0)(0x50000000 := 0x00200000, 0x50000004 := 10, 0x50000ff4 := 0xF0)"
  by (simp_all add: bank0_found_def run_eval beam_on_eval beam_on_mem scan_eval map_consts)

lemma zero_count_found_eval:
  "pc zero_count_found = Extract" "state zero_count_found = BOS"
  "header zero_count_found = 0x80000001" "currentDPBank zero_count_found = 1"
  "sdAddr zero_count_found = sdStartAddr"
  "dpBankStartAddr zero_count_found (Suc 0) = 0x50001000"
  "dpBankLastAddr zero_count_found (Suc 0) = 0x50001ff4"
  "mem zero_count_found = (\<lambda>_. 0)(0x50001000 := 0x80000001)"
  by (simp_all add: zero_count_found_def run_eval beam_on_eval beam_on_mem scan_eval map_consts)

lemma bank0_state: "state bank0_found = BOS"
  by (simp add: bank0_found_def run_eval beam_on_eval beam_on_mem scan_eval map_consts)

section \<open>The ingest loop\<close>

text \<open>
  C1.  The words staged for a consumed bank are not the header, the payload words and the
  footer.  With the beam on, bank 0 holds a record of word count 2: header, payload word
  10, event tag \<open>0xF0\<close> in its last word but two.  Three words are staged, but they are
  the header, 11 and 0: line 148 adds one to the payload word, and the footer is read
  through \<open>dpBankLastAddr[0]\<close>, which \<^verbatim>\<open>init\<close> never sets.  And for a header that is not
  zero but encodes the word count 0, \<open>i = nWords - 1\<close> of line 145 wraps: five statements
  after the scan two words are staged, where the claim has one, and the copy loop stands
  at its test with 4294967294 passes still to go.
\<close>

theorem staged_record_differs:
  "state bank0_found = BOS \<and> word_count (header bank0_found) = 2 \<and>
   mem bank0_found (ptr_add (bankStart bank0_found) 1) = 10 \<and>
   mem bank0_found (ptr_add (bankStart bank0_found) (NWORDSPERBANK - 3)) = 0xF0 \<and>
   words_at (mem (consumeBank bank0_found)) (sdAddr bank0_found) 3 = [header bank0_found, 11, 0] \<and>
   state zero_count_found = BOS \<and> header zero_count_found \<noteq> 0 \<and>
   word_count (header zero_count_found) = 0 \<and> pc zero_count_found = Extract \<and>
   sdAddr (main_run 5 zero_count_found) = ptr_add (sdAddr zero_count_found) 2 \<and>
   pc (main_run 5 zero_count_found) = CopyTest \<and>
   loop_i (main_run 5 zero_count_found) = 0xFFFFFFFE"
  by (simp add: bank0_state consume_eval bank0_found_eval words_at_eval map_consts
      NWORDSPERBANK_def run_eval zero_count_found_eval)

text \<open>
  C6.  The payload word 10 of bank 1 reaches the staging buffer as 11: line 148 stores
  \<^verbatim>\<open>*dpAddr + 1\<close>, not the word it read.
\<close>

theorem payload_word_incremented:
  "mem bank1_found (ptr_add (bankStart bank1_found) 1) = 10 \<and>
   mem (consumeBank bank1_found) (ptr_add (sdAddr bank1_found) 1) = 11"
  by (simp add: consume_eval bank1_found_eval map_consts)

text \<open>
  C7.  With the staging cursor at \<open>sdEndAddr\<close>, the end of the SDRAM region, the next
  record is written there and beyond, the cursor moves on and the state stays \<open>BOS\<close>;
  and a header whose count field is 2047, above the 1024 words of a bank, sets the copy
  loop to 2046 passes.  Neither is checked: lines 130 and 131 are comments.
\<close>

theorem overflow_not_detected:
  "sdAddr buffer_full = sdEndAddr \<and>
   mem (consumeBank buffer_full) sdEndAddr = header buffer_full \<and>
   sdAddr (consumeBank buffer_full) = ptr_add sdEndAddr 4 \<and>
   state (consumeBank buffer_full) = BOS \<and>
   NWORDSPERBANK < word_count (header oversized) \<and>
   loop_i (copyInit (pushHeader (extractFields oversized))) = 2046"
  by (simp add: buffer_full_def oversized_def consume_eval bank1_found_eval map_consts
      sdEndAddr_def NWORDSPERBANK_def)

text \<open>What \<^verbatim>\<open>init\<close> does to the table of last-word addresses.\<close>

lemma initLoop_unfold:
  shows "b < NBANKS \<Longrightarrow> initLoop b s = initLoop (b + 1) (initBank b s)"
    and "\<not> b < NBANKS \<Longrightarrow> initLoop b s = s"
proof -
  show "b < NBANKS \<Longrightarrow> initLoop b s = initLoop (b + 1) (initBank b s)"
    by (subst initLoop.simps) simp
  show "\<not> b < NBANKS \<Longrightarrow> initLoop b s = s"
    by (subst initLoop.simps) simp
qed

lemma initLoop_start_below:
  "c < b \<Longrightarrow> dpBankStartAddr (initLoop b s) c = dpBankStartAddr s c"
proof (induction b s rule: initLoop.induct)
  case (1 b s)
  show ?case
  proof (cases "b < NBANKS")
    case True
    have "dpBankStartAddr (initLoop (b + 1) (initBank b s)) c = dpBankStartAddr (initBank b s) c"
      using "1.IH" [OF True] "1.prems" by simp
    then show ?thesis using "1.prems" by (simp add: initLoop_unfold(1) [OF True] initBank_def Let_def)
  next
    case False
    then show ?thesis by (simp add: initLoop_unfold(2))
  qed
qed

lemma initLoop_last:
  "dpBankLastAddr (initLoop b s) c =
     (if b \<le> c \<and> c < NBANKS
      then ptr_sub (ptr_add (dpBankStartAddr (initLoop b s) c) NWORDSPERBANK) 3
      else dpBankLastAddr s c)"
proof (induction b s rule: initLoop.induct)
  case (1 b s)
  show ?case
  proof (cases "b < NBANKS")
    case True
    note ih = "1.IH" [OF True]
    show ?thesis
    proof (cases "c = b")
      case True
      have "dpBankStartAddr (initLoop (b + 1) (initBank b s)) b = dpBankStartAddr (initBank b s) b"
        by (rule initLoop_start_below) simp
      then show ?thesis
        using ih True \<open>b < NBANKS\<close>
        by (simp add: initLoop_unfold(1) [OF \<open>b < NBANKS\<close>] initBank_def Let_def)
    next
      case False
      then show ?thesis
        using ih \<open>b < NBANKS\<close>
        by (simp add: initLoop_unfold(1) [OF \<open>b < NBANKS\<close>] initBank_def Let_def)
    qed
  next
    case False
    then show ?thesis by (auto simp: initLoop_unfold(2))
  qed
qed

lemma init_last_address:
  "dpBankLastAddr (init s) 0 = dpBankLastAddr s 0"
  "1 \<le> b \<Longrightarrow> b < NBANKS \<Longrightarrow>
   dpBankLastAddr (init s) b = ptr_add (dpBankStartAddr (init s) b) (NWORDSPERBANK - 3)"
  by (simp_all add: init_def initTotal_def initState_def initBanks_def initLoop_last
      ptr_add_def ptr_sub_def algebra_simps)

text \<open>
  C9.  For bank 0 the event tag is not read at \<open>NWORDSPERBANK - 3\<close> words past the bank's
  start: \<^verbatim>\<open>init\<close> never assigns \<open>dpBankLastAddr[0]\<close>, it stays the null pointer of the
  static initialisation, and the word pushed as footer is the one at address 0, not the
  tag \<open>0xF0\<close> the bank holds.
\<close>

theorem bank0_footer_address:
  "currentDPBank bank0_found = 0 \<and> bankStart bank0_found = dpStartAddr \<and>
   bankLast bank0_found = 0 \<and>
   ptr_add (bankStart bank0_found) (NWORDSPERBANK - 3) = 0x50000ff4 \<and>
   mem bank0_found 0x50000ff4 = 0xF0 \<and>
   eventID (extractFields bank0_found) = mem bank0_found 0 \<and>
   words_at (mem (consumeBank bank0_found)) sdStartAddr 3 = [0x00200000, 11, 0]"
  by (simp add: consume_eval bank0_found_eval words_at_eval map_consts NWORDSPERBANK_def)

text \<open>
  Whatever header the scan holds when it sees the state gone from \<open>BOS\<close>, the next
  statement is line 127; and from there on no statement looks at the state or at the
  header being zero before the copy loop is entered.
\<close>

lemma break_leads_to_copy:
  assumes "pc s = ScanCheck" "state s \<noteq> BOS"
  shows "main_step s = s\<lparr>pc := Extract\<rparr>"
    and "pc (main_run 4 s) = CopyTest"
    and "loop_i (main_run 4 s) = word_count (header s) - 1"
  using assms by (simp_all add: run_eval stmt_defs)

text \<open>
  C8.  In the empty spill the scan does end when it sees the state gone from \<open>BOS\<close>, but
  the \<^verbatim>\<open>break\<close> only leaves the inner loop: the polling context goes on with line 127
  for a bank whose header is zero, pushes that header, and enters the copy loop with
  \<open>i = 0xFFFFFFFF\<close>.
\<close>

theorem scan_break_falls_into_copy:
  "state interrupted = READY \<and> header (main_run 2 interrupted) = 0 \<and>
   pc (main_run 2 interrupted) = Extract \<and>
   pc (main_run 4 interrupted) = CopyInit \<and>
   sdAddr (main_run 4 interrupted) = ptr_add (sdAddr interrupted) 1 \<and>
   loop_i (main_run 5 interrupted) = 0xFFFFFFFF \<and>
   pc (main_run 6 interrupted) = CopyWord"
  by (simp add: run_eval interrupted_eval scan_eval stmt_defs copyWord_def word_count_def
      NWORDSMASK_def map_consts)

section \<open>The ingest loop, statement by statement\<close>

lemma initLoop_total: "nWordsTotal (initLoop b s) = nWordsTotal s"
proof (induction b s rule: initLoop.induct)
  case (1 b s)
  show ?case
  proof (cases "b < NBANKS")
    case True
    with 1 show ?thesis by (subst initLoop.simps) (simp add: initBank_def Let_def)
  next
    case False
    then show ?thesis by (subst initLoop.simps) simp
  qed
qed

lemma main_run_add: "main_run (j + k) s = main_run k (main_run j s)"
  by (induction j arbitrary: s) simp_all

lemma copyWord_pc: "copyWord (s\<lparr>pc := p\<rparr>) = (copyWord s)\<lparr>pc := p\<rparr>"
  by (simp add: copyWord_def)

lemma copyWords_pc: "copyWords (s\<lparr>pc := p\<rparr>) = (copyWords s)\<lparr>pc := p\<rparr>"
proof (induction s rule: copyWords.induct)
  case (1 s)
  show ?case
  proof (cases "loop_i s = 0")
    case True
    then show ?thesis by (simp add: copyWords_0)
  next
    case False
    with 1 show ?thesis by (simp add: copyWords_step copyWord_pc)
  qed
qed

lemma two_steps_in_loop:
  assumes "pc s = CopyTest" "loop_i s \<noteq> 0"
  shows "main_step s = s\<lparr>pc := CopyWord\<rparr>" "main_step (main_step s) = copyWord s"
  using assms by (simp_all add: main_step_def copyWord_def)

lemma loop_run:
  "pc s = CopyTest \<Longrightarrow>
   main_run (2 * unat (loop_i s) + 1) s = (copyWords s)\<lparr>pc := PushFooter\<rparr>"
proof (induction s rule: copyWords.induct)
  case (1 s)
  show ?case
  proof (cases "loop_i s = 0")
    case True
    with "1.prems" show ?thesis by (simp add: copyWords_0 main_step_def)
  next
    case False
    have u: "unat (loop_i s) = Suc (unat (loop_i (copyWord s)))"
      using False by (simp add: copyWord_simps unat_minus_one unat_gt_0)
    have "main_run (2 * unat (loop_i s) + 1) s
          = main_run (2 * unat (loop_i (copyWord s)) + 1) (main_step (main_step s))"
      by (simp add: u)
    also have "\<dots> = (copyWords (copyWord s))\<lparr>pc := PushFooter\<rparr>"
      using "1.IH" [OF False] "1.prems" two_steps_in_loop(2) [OF "1.prems" False]
      by (simp add: copyWord_simps)
    finally show ?thesis using False by (simp add: copyWords_step)
  qed
qed

lemma loop_quiet:
  "pc s = CopyTest \<Longrightarrow> j \<le> 2 * unat (loop_i s) + 1 \<Longrightarrow>
   nWordsTotal (main_run j s) = nWordsTotal s"
proof (induction s arbitrary: j rule: copyWords.induct)
  case (1 s)
  show ?case
  proof (cases "loop_i s = 0")
    case True
    with "1.prems" have "j = 0 \<or> j = 1" by auto
    with "1.prems" True show ?thesis by (auto simp: main_step_def)
  next
    case False
    have u: "unat (loop_i s) = Suc (unat (loop_i (copyWord s)))"
      using False by (simp add: copyWord_simps unat_minus_one unat_gt_0)
    consider "j = 0" | "j = 1" | j' where "j = Suc (Suc j')"
      by (metis One_nat_def not0_implies_Suc)
    then show ?thesis
    proof cases
      case 1
      then show ?thesis by simp
    next
      case 2
      then show ?thesis using two_steps_in_loop(1) [OF "1.prems"(1) False] by simp
    next
      case 3
      then have "j' \<le> 2 * unat (loop_i (copyWord s)) + 1" using "1.prems"(2) u by simp
      from "1.IH" [OF False _ this] "1.prems"(1) 3
      show ?thesis
        by (simp add: two_steps_in_loop(2) [OF "1.prems"(1) False] copyWord_simps)
    qed
  qed
qed

lemma head_run:
  assumes "pc s = Extract"
  shows "main_run 3 s = (copyInit (pushHeader (extractFields s)))\<lparr>pc := CopyTest\<rparr>"
    and "k \<le> 3 \<Longrightarrow> nWordsTotal (main_run k s) = nWordsTotal s"
proof -
  show "main_run 3 s = (copyInit (pushHeader (extractFields s)))\<lparr>pc := CopyTest\<rparr>"
    using assms by (simp add: run_eval stmt_defs)
  assume "k \<le> 3"
  then consider "k = 0" | "k = 1" | "k = 2" | "k = 3" by linarith
  then show "nWordsTotal (main_run k s) = nWordsTotal s"
    using assms by cases (simp_all add: run_eval stmt_defs)
qed

lemma tail_run:
  assumes "pc t = PushFooter"
  shows "main_run 3 t = (advanceBank (clearHeader (pushFooter t)))\<lparr>pc := UpdateTotal\<rparr>"
    and "k \<le> 3 \<Longrightarrow> nWordsTotal (main_run k t) = nWordsTotal t"
proof -
  show "main_run 3 t = (advanceBank (clearHeader (pushFooter t)))\<lparr>pc := UpdateTotal\<rparr>"
    using assms by (simp add: run_eval stmt_defs)
  assume "k \<le> 3"
  then consider "k = 0" | "k = 1" | "k = 2" | "k = 3" by linarith
  then show "nWordsTotal (main_run k t) = nWordsTotal t"
    using assms by cases (simp_all add: run_eval stmt_defs)
qed

lemma record_run:
  fixes s :: machine
  defines "L \<equiv> unat (word_count (header s) - 1)"
  assumes pc: "pc s = Extract"
  shows "main_run (2 * L + 7) s = (copyBank s)\<lparr>pc := UpdateTotal\<rparr>"
    and "k \<le> 2 * L + 7 \<Longrightarrow> nWordsTotal (main_run k s) = nWordsTotal s"
proof -
  let ?s3 = "(copyInit (pushHeader (extractFields s)))\<lparr>pc := CopyTest\<rparr>"
  let ?t = "(copyWords ?s3)\<lparr>pc := PushFooter\<rparr>"
  have h: "main_run 3 s = ?s3" by (rule head_run(1) [OF pc])
  have l3: "unat (loop_i ?s3) = L" by (simp add: L_def stmt_defs)
  have pc3: "pc ?s3 = CopyTest" by simp
  have lr: "main_run (2 * L + 1) ?s3 = ?t" using loop_run [OF pc3] by (simp only: l3)
  have n3: "nWordsTotal ?s3 = nWordsTotal s" by (simp add: stmt_defs)
  have nt: "nWordsTotal ?t = nWordsTotal s" using n3 by (simp add: copyWords_simps)
  have pct: "pc ?t = PushFooter" by simp
  have "main_run (2 * L + 7) s = main_run 3 (main_run (2 * L + 1) (main_run 3 s))"
    using main_run_add [of 3 "2 * L + 4" s] main_run_add [of "2 * L + 1" 3 "main_run 3 s"]
    by (simp add: add.commute)
  also have "\<dots> = (advanceBank (clearHeader (pushFooter ?t)))\<lparr>pc := UpdateTotal\<rparr>"
    by (simp only: h lr tail_run(1) [OF pct])
  also have "\<dots> = (copyBank s)\<lparr>pc := UpdateTotal\<rparr>"
    by (simp add: copyBank_def copyWords_pc stmt_defs)
  finally show "main_run (2 * L + 7) s = (copyBank s)\<lparr>pc := UpdateTotal\<rparr>" .
  assume k: "k \<le> 2 * L + 7"
  consider "k \<le> 3" | "3 < k" "k \<le> 2 * L + 4" | "2 * L + 4 < k" by linarith
  then show "nWordsTotal (main_run k s) = nWordsTotal s"
  proof cases
    case 1
    then show ?thesis by (rule head_run(2) [OF pc])
  next
    case 2
    then have "main_run k s = main_run (k - 3) ?s3"
      using main_run_add [of 3 "k - 3" s] h by simp
    moreover have "k - 3 \<le> 2 * unat (loop_i ?s3) + 1" using 2 l3 by simp
    ultimately show ?thesis using loop_quiet [OF pc3] n3 by simp
  next
    case 3
    define m where "m = k - (2 * L + 4)"
    have km: "k = 3 + ((2 * L + 1) + m)" and m3: "m \<le> 3" using 3 k by (simp_all add: m_def)
    have "main_run k s = main_run m (main_run (2 * L + 1) (main_run 3 s))"
      unfolding km by (simp only: main_run_add)
    then have "main_run k s = main_run m ?t" by (simp only: h lr)
    moreover note m3
    ultimately show ?thesis using tail_run(2) [OF pct] nt by simp
  qed
qed

lemma main_run_last: "main_run (k + 1) s = main_step (main_run k s)"
  using main_run_add [of k 1 s] by simp

lemma quiet_step:
  "pc t \<notin> {InitTotal, UpdateTotal, ExitUpdate} \<Longrightarrow> nWordsTotal (main_step t) = nWordsTotal t"
  by (cases "pc t")
    (simp_all add: main_step_def stmt_defs copyWord_def readHeader_def scanAdvance_def
      resetCursors_def initState_def initBanks_def initLoop_total)

text \<open>
  C10.  The ingest loop writes the occupied count once per consumed record, as the last
  thing it does for it.  No statement of the polling context other than those of lines
  99, 164 and 173 changes \<open>nWordsTotal\<close>.  From line 127 on, running undisturbed, the
  polling context takes \<open>K = 2 * (n - 1) + 7\<close> statements to reach line 164, \<open>n\<close> being
  the header's word count (\<open>n - 1\<close> taken as the 32-bit loop counter): at each of these
  points \<open>nWordsTotal\<close> still has the value it had before the record, so it counts whole
  records only.  When line 164 is reached, the \<open>n + 1\<close> words the loop stages for the
  record lie in the staging buffer from the record's cursor on (for \<open>n\<close> at least 1 and a
  staging block apart from the bank): the header, the word line 148 stores for each of
  the \<open>n - 1\<close> payload words, the word line 135 read through \<open>dpBankLastAddr\<close>; the
  cursor is \<open>n + 1\<close> words further and the bank's header is zero.  Only the next statement
  sets \<open>nWordsTotal\<close>, to the cursor's distance from \<open>sdStartAddr\<close>.
\<close>

theorem total_written_once_per_record:
  fixes s t :: machine
  defines "n \<equiv> unat (word_count (header s))"
  defines "K \<equiv> 2 * unat (word_count (header s) - 1) + 7"
  assumes "pc s = Extract" and "pc t \<notin> {InitTotal, UpdateTotal, ExitUpdate}"
  shows "nWordsTotal (main_step t) = nWordsTotal t \<and>
         (\<forall>k\<le>K. nWordsTotal (main_run k s) = nWordsTotal s) \<and>
         main_run K s = (copyBank s)\<lparr>pc := UpdateTotal\<rparr> \<and>
         sdAddr (main_run K s) = ptr_add (sdAddr s) (word_count (header s) + 1) \<and>
         (1 \<le> n \<and> apart (sdAddr s) (n + 1) (bankStart s) n \<longrightarrow>
            words_at (mem (main_run K s)) (sdAddr s) (n + 1) =
              header s # map (\<lambda>w. w + 1) (words_at (mem s) (ptr_add (bankStart s) 1) (n - 1))
                @ [mem s (bankLast s)]) \<and>
         mem (main_run K s) (bankStart s) = 0 \<and>
         main_run (K + 1) s = (consumeBank s)\<lparr>pc := OuterTest\<rparr> \<and>
         nWordsTotal (main_run (K + 1) s) = ptr_diff (sdAddr (main_run K s)) sdStartAddr"
proof -
  note rr = record_run [OF assms(3), folded K_def]
  have a: "nWordsTotal (main_step t) = nWordsTotal t" by (rule quiet_step [OF assms(4)])
  have b: "\<forall>k\<le>K. nWordsTotal (main_run k s) = nWordsTotal s" using rr(2) by blast
  have c: "sdAddr (main_run K s) = ptr_add (sdAddr s) (word_count (header s) + 1)"
    by (simp add: rr(1) copyBank_sdAddr)
  have w: "words_at (mem (main_run K s)) (sdAddr s) (n + 1) =
              header s # map (\<lambda>w. w + 1) (words_at (mem s) (ptr_add (bankStart s) 1) (n - 1))
                @ [mem s (bankLast s)]"
    if "1 \<le> n \<and> apart (sdAddr s) (n + 1) (bankStart s) n"
  proof -
    have "mem (main_run K s) = mem (consumeBank s)" by (simp add: rr(1) consumeBank_mem)
    then show ?thesis using record_words [of s] that by (simp add: n_def)
  qed
  have d: "mem (main_run K s) (bankStart s) = 0" by (simp add: rr(1) copyBank_mem)
  have e: "main_run (K + 1) s = (consumeBank s)\<lparr>pc := OuterTest\<rparr>"
    by (simp only: main_run_last rr(1)) (simp add: main_step_def consumeBank_def updateTotal_def)
  have f: "nWordsTotal (main_run (K + 1) s) = ptr_diff (sdAddr (main_run K s)) sdStartAddr"
    by (simp only: e) (simp add: consumeBank_def updateTotal_def rr(1))
  from a b c d e f w rr(1) show ?thesis by blast
qed

theorem total_written_once_per_record_witness:
  "pc bank1_found = Extract \<and> pc bank1_found \<notin> {InitTotal, UpdateTotal, ExitUpdate} \<and>
   1 \<le> unat (word_count (header bank1_found)) \<and>
   apart (sdAddr bank1_found) 4 (bankStart bank1_found) 3 \<and>
   nWordsTotal (main_step bank1_found) = 0 \<and>
   nWordsTotal (main_run 11 bank1_found) = 0 \<and>
   pc (main_run 11 bank1_found) = UpdateTotal \<and>
   sdAddr (main_run 11 bank1_found) = ptr_add sdStartAddr 4 \<and>
   words_at (mem (main_run 11 bank1_found)) sdStartAddr 4 = [0x00300000, 11, 21, 0xF] \<and>
   mem (main_run 11 bank1_found) 0x50001000 = 0 \<and>
   pc (main_run 12 bank1_found) = OuterTest \<and>
   nWordsTotal (main_run 12 bank1_found) = 4"
proof -
  have K: "2 * unat (word_count (header bank1_found) - 1) + 7 = 11"
    by (simp add: bank1_found_eval wc3)
  have n: "unat (word_count (header bank1_found)) = 3"
    by (simp add: bank1_found_eval wc3)
  have h: "pc bank1_found = Extract" "pc bank1_found \<notin> {InitTotal, UpdateTotal, ExitUpdate}"
    by (simp_all add: bank1_found_eval)
  have h1: "1 \<le> unat (word_count (header bank1_found))" by (simp add: n)
  have h2: "apart (sdAddr bank1_found) 4 (bankStart bank1_found) 3"
    by (simp add: bank1_found_eval apart_def map_consts)
  have h2': "apart (sdAddr bank1_found) (3 + 1) (bankStart bank1_found) 3" using h2 by simp
  have payload: "words_at (mem bank1_found) (ptr_add (bankStart bank1_found) 1) 2 = [10, 20]"
    by (simp add: bank1_found_eval words_at_eval map_consts)
  note t = total_written_once_per_record [of bank1_found bank1_found, unfolded K n, OF h]
  note t1 = t [THEN conjunct1]
  note t2 = t [THEN conjunct2, THEN conjunct1]
  note t3 = t [THEN conjunct2, THEN conjunct2, THEN conjunct1]
  note t4 = t [THEN conjunct2, THEN conjunct2, THEN conjunct2, THEN conjunct1]
  note t5 = t [THEN conjunct2, THEN conjunct2, THEN conjunct2, THEN conjunct2, THEN conjunct1]
  note t6 = t [THEN conjunct2, THEN conjunct2, THEN conjunct2, THEN conjunct2, THEN conjunct2,
      THEN conjunct1]
  note t7 = t [THEN conjunct2, THEN conjunct2, THEN conjunct2, THEN conjunct2, THEN conjunct2,
      THEN conjunct2, THEN conjunct1]
  have twelve: "main_run 12 bank1_found = main_run (11 + 1) bank1_found" by simp
  have a: "nWordsTotal (main_step bank1_found) = 0" using t1 by (simp add: bank1_found_eval)
  have b: "nWordsTotal (main_run 11 bank1_found) = 0"
    using t2 [rule_format, of 11] by (simp add: bank1_found_eval)
  have c: "pc (main_run 11 bank1_found) = UpdateTotal" by (simp only: t3) simp
  have d: "sdAddr (main_run 11 bank1_found) = ptr_add sdStartAddr 4"
    by (simp only: t4) (simp add: bank1_found_eval wc3)
  have w: "words_at (mem (main_run 11 bank1_found)) sdStartAddr 4 = [0x00300000, 11, 21, 0xF]"
    using t5 [rule_format, OF conjI [OF _ h2']] payload
    by (simp add: bank1_found_eval del: main_run.simps)
  have e: "mem (main_run 11 bank1_found) 0x50001000 = 0"
    using t6 by (simp only: bank1_found_eval)
  have f: "pc (main_run 12 bank1_found) = OuterTest" by (simp only: twelve t7) simp
  have g: "nWordsTotal (main_run 12 bank1_found) = 4"
    by (simp only: twelve t7) (simp add: bank1_consumed_eval)
  from h h1 h2 a b c d w e f g show ?thesis by blast
qed

section \<open>The spill cycle\<close>

lemma initLoop_state: "state (initLoop b s) = state s \<and> hbusy (initLoop b s) = hbusy s"
proof (induction b s rule: initLoop.induct)
  case (1 b s)
  show ?case
  proof (cases "b < NBANKS")
    case True
    with 1 show ?thesis by (subst (1 2) initLoop.simps) (simp add: initBank_def Let_def)
  next
    case False
    then show ?thesis by (subst (1 2) initLoop.simps) simp
  qed
qed

lemmas poll_defs = main_step_def stmt_defs copyWord_def readHeader_def scanAdvance_def
  resetCursors_def initState_def initTotal_def initBanks_def initLoop_state

lemma states_distinct:
  "BOS \<noteq> EOS" "BOS \<noteq> READY" "EOS \<noteq> READY"
  "EOS \<noteq> BOS" "READY \<noteq> BOS" "READY \<noteq> EOS"
  by (simp_all add: BOS_def EOS_def READY_def)

lemma polling_state:
  "state (main_step s) = (if pc s = InitState then BOS else state s)"
  "hbusy (main_step s) = hbusy s"
  by (cases "pc s"; simp add: poll_defs)+

lemma polling_pc_init:
  "pc (main_step s) \<in> {InitBanks, InitState} \<Longrightarrow>
   (pc s = Poll \<and> state s = READY) \<or> pc s = InitBanks"
  by (cases "pc s") (simp_all add: poll_defs split: if_splits)

lemma drainBatch_fields: "pc (drainBatch s) = pc s" "hbusy (drainBatch s) = hbusy s"
  by (simp_all add: drainBatch_unfold Let_def)

lemma enterEOS_fields: "pc (enterEOS s) = pc s" "hbusy (enterEOS s) = hbusy s"
  by (simp_all add: enterEOS_def)

lemma spill_inv_step:
  assumes "spill_inv s" "step s s'"
  shows "spill_inv s' \<and> cycle_ok (state s) (state s') \<and>
         (state s = BOS \<and> state s' \<noteq> BOS \<longrightarrow> s' = (enterEOS s)\<lparr>hbusy := True\<rparr>)"
  using assms(2)
proof cases
  case polling
  have st: "state s' = (if pc s = InitState then BOS else state s)" "hbusy s' = hbusy s"
    using polling by (simp_all add: polling_state)
  have "pc s' \<in> {InitBanks, InitState} \<longrightarrow> state s' = READY"
    using polling_pc_init [of s] polling assms(1) st
    by (auto simp: spill_inv_def)
  then have "spill_inv s'"
    using assms(1) st polling by (auto simp: spill_inv_def)
  moreover have "cycle_ok (state s) (state s')"
    using assms(1) st by (auto simp: spill_inv_def cycle_ok_def)
  moreover have "\<not> (state s = BOS \<and> state s' \<noteq> BOS)" using st by auto
  ultimately show ?thesis by blast
next
  case (irq_return dp_lev)
  with assms(1) show ?thesis by (simp add: cycle_ok_def)
next
  case (irq_enter dp_lev)
  with assms(1) show ?thesis
    by (auto simp: spill_inv_def cycle_ok_def enterEOS_def states_distinct)
next
  case irq_drain
  then have nb: "state s \<noteq> BOS" using assms(1) by (simp add: spill_inv_def)
  have st: "state s' = READY \<or> state s' = state s" "pc s' = pc s" "\<not> hbusy s'"
    using irq_drain by (auto simp: drainBatch_state drainBatch_fields)
  have "spill_inv s'" using assms(1) st nb by (auto simp: spill_inv_def)
  moreover have "cycle_ok (state s) (state s')"
    using assms(1) st nb by (auto simp: spill_inv_def cycle_ok_def)
  ultimately show ?thesis using nb by blast
next
  case (hardware a v)
  with assms(1) show ?thesis by (simp add: spill_inv_def cycle_ok_def)
qed

lemma reachable_inv: "reachable s \<Longrightarrow> spill_inv s"
proof (induction rule: reachable.induct)
  case (start s)
  then show ?case by (simp add: spill_inv_def)
next
  case (later s s')
  then show ?case using spill_inv_step by blast
qed

lemma main_run_reachable: "reachable s \<Longrightarrow> \<not> hbusy s \<Longrightarrow> reachable (main_run k s)"
proof (induction k arbitrary: s)
  case 0
  then show ?case by simp
next
  case (Suc k)
  have "step s (main_step s)" using Suc.prems(2) by (rule step.polling)
  with Suc.prems(1) have "reachable (main_step s)" by (rule reachable.later)
  moreover have "\<not> hbusy (main_step s)" using Suc.prems by (simp add: polling_state)
  ultimately show ?case using Suc.IH by simp
qed

lemma reachable_beam_on: "reachable beam_on"
proof -
  have "reachable boot" by (rule reachable.start) (simp_all add: boot_def)
  moreover have "\<not> hbusy boot" by (simp add: boot_def)
  ultimately show ?thesis unfolding beam_on_def by (rule main_run_reachable)
qed


text \<open>
  The handler as a whole is its two steps in a row, and between two record copies the
  polling context leaves the staging cursor alone.
\<close>

lemma drainBatch_hbusy: "drainBatch (s\<lparr>hbusy := b\<rparr>) = (drainBatch s)\<lparr>hbusy := b\<rparr>"
  by (simp add: drainBatch_unfold batch_def Let_def)

lemma handler_in_two_steps:
  assumes "\<not> hbusy s" "dp_lev \<noteq> 1"
  shows "step s ((enterEOS s)\<lparr>hbusy := True\<rparr>)"
    and "step ((enterEOS s)\<lparr>hbusy := True\<rparr>) (beamOffTransfer dp_lev s)"
proof -
  let ?e = "(enterEOS s)\<lparr>hbusy := True\<rparr>"
  show "step s ?e" using assms by (rule step.irq_enter)
  have "hbusy ?e" by simp
  then have "step ?e ((drainBatch ?e)\<lparr>hbusy := False\<rparr>)" by (rule step.irq_drain)
  moreover have "(drainBatch ?e)\<lparr>hbusy := False\<rparr> = beamOffTransfer dp_lev s"
  proof -
    let ?d = "drainBatch (enterEOS s)"
    have hb: "hbusy ?d = False" using assms(1) by (simp add: drainBatch_fields enterEOS_fields)
    have "?d\<lparr>hbusy := hbusy ?d\<rparr> = ?d" by simp
    then have "?d\<lparr>hbusy := False\<rparr> = ?d" by (simp only: hb)
    then show ?thesis using assms(2) by (simp add: drainBatch_hbusy beamOffTransfer_def)
  qed
  ultimately show "step ?e (beamOffTransfer dp_lev s)" by simp
qed

lemma scan_keeps_cursor:
  "pc s \<in> {OuterTest, ReadHeader, ScanTest, ScanAdvance, ScanCheck} \<Longrightarrow>
   sdAddr (main_step s) = sdAddr s"
  by (auto simp: main_step_def readHeader_def scanAdvance_def)

text \<open>
  C4.  In every configuration the system reaches from the moment \<^verbatim>\<open>main\<close> enters its
  loop with the state \<open>READY\<close>, whatever step comes next (a statement of the polling
  context, the handler's entry or its drain, a write of the hardware), the state stays
  as it is or moves along \<open>READY\<close> to \<open>BOS\<close>, \<open>BOS\<close> to \<open>EOS\<close>, \<open>EOS\<close> to \<open>READY\<close>.  There
  is no step from \<open>BOS\<close> to \<open>READY\<close> and none from \<open>EOS\<close> to \<open>BOS\<close>; the only step that
  leaves \<open>BOS\<close> is the entry of the drain handler, and no statement of the polling
  context does.
\<close>

theorem spill_cycle:
  assumes "reachable s" and "step s s'"
  shows "cycle_ok (state s) (state s') \<and>
         \<not> (state s = BOS \<and> state s' = READY) \<and>
         \<not> (state s = EOS \<and> state s' = BOS) \<and>
         (state s = BOS \<and> state s' \<noteq> BOS \<longrightarrow> s' = (enterEOS s)\<lparr>hbusy := True\<rparr>) \<and>
         (state s = BOS \<longrightarrow> state (main_step s) = BOS)"
proof -
  note i = spill_inv_step [OF reachable_inv [OF assms(1)] assms(2)]
  then have c: "cycle_ok (state s) (state s')" by blast
  have "\<not> (state s = BOS \<and> state s' = READY)" "\<not> (state s = EOS \<and> state s' = BOS)"
    using c by (auto simp: cycle_ok_def states_distinct)
  moreover have "state s = BOS \<longrightarrow> state (main_step s) = BOS"
    by (simp add: polling_state)
  ultimately show ?thesis using i by blast
qed


theorem spill_cycle_witness:
  "reachable beam_on \<and> step beam_on ((enterEOS beam_on)\<lparr>hbusy := True\<rparr>) \<and>
   state beam_on = BOS \<and> state ((enterEOS beam_on)\<lparr>hbusy := True\<rparr>) = EOS \<and>
   cycle_ok BOS EOS \<and> state (main_step beam_on) = BOS"
proof -
  have r: "reachable beam_on" by (rule reachable_beam_on)
  have "\<not> hbusy beam_on" "(0::u32) \<noteq> 1" by (simp_all add: beam_on_eval)
  then have st: "step beam_on ((enterEOS beam_on)\<lparr>hbusy := True\<rparr>)" by (rule step.irq_enter)
  have v: "state beam_on = BOS" "state ((enterEOS beam_on)\<lparr>hbusy := True\<rparr>) = EOS"
    by (simp_all add: enterEOS_def beam_on_eval)
  from spill_cycle [OF r st] r st v show ?thesis by (simp add: states_distinct)
qed

end
